theory Spec2Isabelle
  imports Main "HOL-Library.Sublist" "HOL-Library.AList"
begin

section \<open>JavaScript values and the lodash path functions\<close>

text \<open>
  What a rejected promise carries: an \<open>Error\<close> that the repository's own code throws,
  with its message, or a rejection of a library (the version-control engine, \<open>JSON5\<close>).
  \<open>Unmodelled\<close> is no error of the code. It is the result the model gives when a run
  leaves the part of JavaScript that the model describes: what the code does then (an
  exception of the engine such as \<open>RangeError\<close>, a prototype replaced, an array cut short,
  a document changed in place) is not said by the model, and no theorem draws a conclusion
  about the code from it.
\<close>

datatype error =
    Error string          \<comment> \<open>\<open>new Error(message)\<close> thrown by repo.js\<close>
  | SyntaxError           \<comment> \<open>thrown by \<open>JSON5.parse\<close>\<close>
  | NotFound              \<comment> \<open>engine: no such reference or object\<close>
  | RemoteUnavailable     \<comment> \<open>engine: the fetch could not reach origin\<close>
  | NotFirstParent        \<comment> \<open>engine: the tip of the updated reference is not the first parent\<close>
  | Unmodelled            \<comment> \<open>the run leaves the model\<close>

text \<open>
  A document is what \<open>JSON5.parse\<close> returns: a primitive (null, a boolean, a number, a
  string) or an object or array whose properties are documents again. The code never looks
  at a primitive, it only asks \<open>isObject\<close>, so the primitives are a type parameter.
  An object or array is given by its own enumerable properties; the kind records whether it
  is \<open>{}\<close> or \<open>[]\<close>. The list has the properties in the order of their insertion
  (JavaScript enumerates integer keys first; no statement depends on the order).

  Values are immutable trees here: two JavaScript references to one object are two copies.
  The copies agree with the references as long as nothing is written inside an object that
  is referred to twice.

  Two things are taken for granted. A document inherits what every object or array
  inherits and nothing else: a parser that lets a document choose its prototype is outside
  the model. And the prototypes are as the engine made them: no earlier run has added a
  property to them.
\<close>

datatype kind = PlainObject | Array

datatype 'p jsval = Prim 'p | Node kind "(string \<times> 'p jsval) list"

type_synonym 'p props = "(string \<times> 'p jsval) list"

fun isObject :: "'p jsval option \<Rightarrow> bool" where
  "isObject (Some (Node kd ps)) = True"
| "isObject _ = False"

text \<open>
  The property names with a meaning of their own. Every object inherits the names of
  \<open>Object.prototype\<close>; an array inherits those of \<open>Array.prototype\<close> as well and has
  its \<open>length\<close>. The lists hold the names of every edition of the language and of the
  engines' extensions. Reading such a name where it is no own property yields a function, a
  prototype or a number. Assigning \<open>__proto__\<close> calls a setter, assigning the \<open>length\<close>
  of an array cuts the array short or throws \<open>RangeError\<close>, and the later versions of
  lodash's \<open>set\<close> refuse the keys \<open>__proto__\<close>, \<open>constructor\<close> and \<open>prototype\<close>.
  The model does not describe these runs.
\<close>

definition objectNames :: "string list" where
  "objectNames =
    [''__proto__'', ''__defineGetter__'', ''__defineSetter__'', ''__lookupGetter__'',
     ''__lookupSetter__'', ''__noSuchMethod__'', ''__count__'', ''__parent__'',
     ''constructor'', ''hasOwnProperty'', ''isPrototypeOf'', ''propertyIsEnumerable'',
     ''toLocaleString'', ''toString'', ''toSource'', ''valueOf'', ''watch'', ''unwatch'', ''eval'']"

definition arrayNames :: "string list" where
  "arrayNames =
    [''length'', ''at'', ''concat'', ''contains'', ''copyWithin'', ''entries'', ''every'', ''fill'',
     ''filter'', ''find'', ''findIndex'', ''findLast'', ''findLastIndex'', ''flat'', ''flatMap'',
     ''flatten'', ''forEach'', ''group'', ''groupBy'', ''groupByToMap'', ''groupToMap'',
     ''includes'', ''indexOf'', ''join'', ''keys'', ''lastIndexOf'', ''map'', ''pop'', ''push'',
     ''reduce'', ''reduceRight'', ''reverse'', ''shift'', ''slice'', ''some'', ''sort'', ''splice'',
     ''toReversed'', ''toSorted'', ''toSpliced'', ''unshift'', ''values'', ''with'']"

definition refusedNames :: "string list" where
  "refusedNames = [''__proto__'', ''constructor'', ''prototype'']"

text \<open>A name that an object of the kind has without it being an own enumerable property.\<close>

definition inherited :: "kind \<Rightarrow> string \<Rightarrow> bool" where
  "inherited kd k = (k \<in> set objectNames \<or> (kd = Array \<and> k \<in> set arrayNames))"

text \<open>A name whose assignment to an object of the kind is not the creation of a property.\<close>

definition refused :: "kind \<Rightarrow> string \<Rightarrow> bool" where
  "refused kd k = (k \<in> set refusedNames \<or> (kd = Array \<and> k = ''length''))"

text \<open>A name of one of the lists.\<close>

definition reserved :: "string \<Rightarrow> bool" where
  "reserved k = (k \<in> set objectNames \<or> k \<in> set arrayNames \<or> k \<in> set refusedNames)"

text \<open>\<open>String.prototype.split("/")\<close>: the pieces between the separators, never an empty array.\<close>

fun split :: "char \<Rightarrow> string \<Rightarrow> string list" where
  "split c [] = [[]]"
| "split c (x # xs) =
     (if x = c then [] # split c xs
      else (case split c xs of [] \<Rightarrow> [[x]] | w # ws \<Rightarrow> (x # w) # ws))"

text \<open>\<open>String.prototype.startsWith\<close> and \<open>endsWith\<close>.\<close>

definition startsWith :: "string \<Rightarrow> string \<Rightarrow> bool" where
  "startsWith s p = (take (length p) s = p)"

definition endsWith :: "string \<Rightarrow> string \<Rightarrow> bool" where
  "endsWith s p = (length p \<le> length s \<and> drop (length s - length p) s = p)"

text \<open>
  lodash's \<open>isIndex\<close> on a string key: the key matches \<open>/^(?:0|[1-9]\d*)$/\<close> and its value
  is below \<open>MAX_SAFE_INTEGER\<close>.
\<close>

definition isDigit :: "char \<Rightarrow> bool" where
  "isDigit c = (c \<in> set ''0123456789'')"

definition digitsValue :: "string \<Rightarrow> nat" where
  "digitsValue s = foldl (\<lambda>n c. 10 * n + (of_char c - 48)) 0 s"

definition isIndex :: "string \<Rightarrow> bool" where
  "isIndex s = (s \<noteq> [] \<and> list_all isDigit s \<and> (hd s = CHR ''0'' \<longrightarrow> length s = 1)
                \<and> digitsValue s < 9007199254740991)"

text \<open>
  lodash \<open>get(object, pathArray)\<close>: follow the keys while the current value is neither
  null nor undefined; the result is undefined (\<open>Inr None\<close>) for an empty path and when the
  walk stops at a property that is missing. An own property is found in the list. A name
  that is no own property is undefined unless the object inherits it. Below a primitive the
  model says nothing: the code stops at null, indexes a string and reads what the wrapper
  prototypes define.
\<close>

fun baseGet :: "'p jsval \<Rightarrow> string list \<Rightarrow> error + 'p jsval option" where
  "baseGet v [] = Inr (Some v)"
| "baseGet (Prim p) (k # ks) = Inl Unmodelled"
| "baseGet (Node kd ps) (k # ks) =
     (case map_of ps k of
        Some v \<Rightarrow> baseGet v ks
      | None \<Rightarrow> if inherited kd k then Inl Unmodelled else Inr None)"

definition get :: "'p jsval \<Rightarrow> string list \<Rightarrow> error + 'p jsval option" where
  "get obj ks = (if ks = [] then Inr None else baseGet obj ks)"

text \<open>
  lodash \<open>set(object, pathArray, value)\<close>: for every key but the last, \<open>nested[key]\<close> is
  read and kept when it is an object, and otherwise replaced by a fresh \<open>[]\<close> (next key is
  an index) or \<open>{}\<close>; the last key is assigned the value. A property that exists keeps its
  place, a new one is added at the end. The model describes the assignment of a key that is
  not refused, and the reading of a key that is an own property or is not inherited. The
  result is the object after the call; who holds another reference to an object on the path
  sees the change too, which the callers below account for.
\<close>

fun baseSet :: "'p jsval \<Rightarrow> string list \<Rightarrow> 'p jsval \<Rightarrow> error + 'p jsval" where
  "baseSet (Prim p) ks v = Inr (Prim p)"
| "baseSet (Node kd ps) [] v = Inr (Node kd ps)"
| "baseSet (Node kd ps) [k] v =
     (if refused kd k then Inl Unmodelled else Inr (Node kd (AList.update k v ps)))"
| "baseSet (Node kd ps) (k # k' # ks) v =
     (if refused kd k \<or> (map_of ps k = None \<and> inherited kd k) then Inl Unmodelled
      else
        (let objValue = map_of ps k;
             newValue = (if isObject objValue then the objValue
                         else if isIndex k' then Node Array [] else Node PlainObject [])
         in case baseSet newValue (k' # ks) v of
              Inl e \<Rightarrow> Inl e
            | Inr nested \<Rightarrow> Inr (Node kd (AList.update k nested ps))))"

section \<open>The snapshot cache (cache.js)\<close>

text \<open>
  A tree is given by its blob entries in the order the engine's walk reports them; an entry
  has its path from the root of the tree and the bytes of its blob.
\<close>

type_synonym entry = "string \<times> string"
type_synonym tree = "entry list"

definition entry_path :: "entry \<Rightarrow> string" where
  "entry_path e = fst e"

definition entry_name :: "entry \<Rightarrow> string" where
  "entry_name e = last (split CHR ''/'' (fst e))"

definition getBlob :: "entry \<Rightarrow> string" where
  "getBlob e = snd e"

record 'p Cache =
  commitHash :: string
  object :: "'p jsval"
  files :: "'p props"

definition newCache :: "'p Cache" where
  "newCache = \<lparr>commitHash = ''0000000000000000'', object = Node PlainObject [], files = []\<rparr>"

definition getFileEntries :: "tree \<Rightarrow> entry list" where
  "getFileEntries t = filter (\<lambda>e. endsWith (entry_name e) ''.json'') t"

text \<open>The store path of an entry: \<open>entry.path().slice(0, -5)\<close>.\<close>

definition storePath :: "entry \<Rightarrow> string" where
  "storePath e = take (length (entry_path e) - 5) (entry_path e)"

text \<open>
  The loop of \<open>buildData\<close>. \<open>files[path] = fileData\<close> adds or replaces an own property
  unless the path is \<open>__proto__\<close>. \<open>set(object, path.split("/"), fileData)\<close> writes into
  the nested object; when a document that is an object or array lies on the way, \<open>set\<close>
  writes inside that document, which the flat map holds too. The model does not describe
  these two cases.
\<close>

definition writesThrough :: "'p props \<Rightarrow> string list \<Rightarrow> bool" where
  "writesThrough fl ks =
     (\<exists>(k, d) \<in> set fl. isObject (Some d) \<and> strict_prefix (split CHR ''/'' k) ks)"

fun buildLoop :: "(string \<Rightarrow> 'p jsval option) \<Rightarrow> entry list \<Rightarrow> 'p jsval \<times> 'p props
                  \<Rightarrow> error + ('p jsval \<times> 'p props)" where
  "buildLoop parse [] acc = Inr acc"
| "buildLoop parse (e # es) (obj, fl) =
     (case parse (getBlob e) of
        None \<Rightarrow> Inl SyntaxError
      | Some fileData \<Rightarrow>
          if storePath e = ''__proto__'' \<or> writesThrough fl (split CHR ''/'' (storePath e))
          then Inl Unmodelled
          else (case baseSet obj (split CHR ''/'' (storePath e)) fileData of
                  Inl err \<Rightarrow> Inl err
                | Inr obj' \<Rightarrow>
                    buildLoop parse es (obj', AList.update (storePath e) fileData fl)))"

definition buildData :: "(string \<Rightarrow> 'p jsval option) \<Rightarrow> entry list
                         \<Rightarrow> error + ('p jsval \<times> 'p props)" where
  "buildData parse fileEntries = buildLoop parse fileEntries (Node PlainObject [], [])"

text \<open>
  A commit handle as the engine returns it: the identifier (\<open>sha()\<close>) and the commit's data.
\<close>

type_synonym signature = "string \<times> string \<times> nat"

record cdata =
  c_author :: signature
  c_committer :: signature
  c_message :: string
  c_tree :: tree
  c_parents :: "string list"

type_synonym commit = "string \<times> cdata"

definition sha :: "commit \<Rightarrow> string" where
  "sha c = fst c"

definition getTree :: "commit \<Rightarrow> tree" where
  "getTree c = c_tree (snd c)"

definition update :: "(string \<Rightarrow> 'p jsval option) \<Rightarrow> commit \<Rightarrow> 'p Cache \<Rightarrow> error + 'p Cache" where
  "update parse c this =
     (if sha c \<noteq> commitHash this then
        (case buildData parse (getFileEntries (getTree c)) of
           Inl e \<Rightarrow> Inl e
         | Inr (obj, fl) \<Rightarrow> Inr \<lparr>commitHash = sha c, object = obj, files = fl\<rparr>)
      else Inr this)"

definition getCommitHash :: "'p Cache \<Rightarrow> string" where
  "getCommitHash this = commitHash this"

definition getObject :: "string \<Rightarrow> 'p Cache \<Rightarrow> error + 'p jsval option" where
  "getObject pth this =
     (if pth \<noteq> [] then get (object this) (split CHR ''/'' pth) else Inr (Some (object this)))"

text \<open>\<open>pickBy\<close> keeps the own properties that the predicate accepts, under their keys.\<close>

definition getFiles :: "string \<Rightarrow> 'p Cache \<Rightarrow> 'p props" where
  "getFiles pth this =
     (if pth \<noteq> [] then filter (\<lambda>(file, data). startsWith file pth) (files this)
      else files this)"

section \<open>The repository (repo.js)\<close>

text \<open>
  The version-control engine is driven, not reimplemented, by the code; its state is modelled
  as far as the code observes it. The local clone has an object database of commits, its
  references (among them \<open>HEAD\<close> and the remote-tracking references
  \<open>refs/remotes/origin/<branch>\<close>) and the files of its working directory. The repository
  behind the uri has its branches and its commits, and may be unreachable.
\<close>

record git =
  objects :: "(string \<times> cdata) list"
  refs :: "(string \<times> string) list"
  workdir :: tree

record remote =
  reachable :: bool
  branches :: "(string \<times> string) list"
  r_objects :: "(string \<times> cdata) list"

text \<open>
  What the code takes from its environment and its libraries without fixing it: the parser of
  a document, the content hash that names a new commit, the three-way merge of two commits
  (\<open>None\<close> when the index has conflicts), the file-system calls on the working directory,
  the process environment and the clock.
\<close>

record 'p platform =
  JSON5_parse :: "string \<Rightarrow> 'p jsval option"
  oidOf :: "cdata \<Rightarrow> string"
  Merge_commits :: "git \<Rightarrow> commit \<Rightarrow> commit \<Rightarrow> tree option"
  rimraf_sync :: "string \<Rightarrow> tree \<Rightarrow> tree"
  outputJsonSync :: "string \<Rightarrow> 'p jsval \<Rightarrow> tree \<Rightarrow> tree"
  env :: "string \<Rightarrow> string option"
  now :: nat

text \<open>
  The state of a \<open>Repo\<close> instance: the repository at \<open>this.uri\<close>, the clone
  \<open>this.repo\<close> and \<open>this.cache\<close>. The gate \<open>this.lock\<close> admits one operation at a
  time, so every operation is one step from state to state.
\<close>

record 'p Repo =
  origin :: remote
  repo :: git
  cache :: "'p Cache"

subsection \<open>Engine calls\<close>

definition getCommit :: "git \<Rightarrow> string \<Rightarrow> error + commit" where
  "getCommit g oid =
     (case map_of (objects g) oid of None \<Rightarrow> Inl NotFound | Some d \<Rightarrow> Inr (oid, d))"

definition getReferenceCommit :: "git \<Rightarrow> string \<Rightarrow> error + commit" where
  "getReferenceCommit g name =
     (case map_of (refs g) name of None \<Rightarrow> Inl NotFound | Some oid \<Rightarrow> getCommit g oid)"

definition tracking :: "string \<Rightarrow> string" where
  "tracking branch = ''refs/remotes/origin/'' @ branch"

text \<open>
  \<open>repo.fetch("origin")\<close>: rejected when origin cannot be reached; otherwise the commits of
  origin are added to the clone and every branch of origin sets its remote-tracking reference.
\<close>

definition fetch :: "'p Repo \<Rightarrow> error + 'p Repo" where
  "fetch s =
     (if \<not> reachable (origin s) then Inl RemoteUnavailable
      else Inr (s\<lparr>repo := (repo s)\<lparr>
              objects := AList.merge (objects (repo s)) (r_objects (origin s)),
              refs := AList.merge (refs (repo s))
                        (map (\<lambda>(b, oid). (tracking b, oid)) (branches (origin s)))\<rparr>\<rparr>))"

text \<open>
  \<open>Git.Reset.reset(repo, commit, HARD)\<close>: \<open>HEAD\<close> and the working directory are set to the
  commit. The working directory holds tracked files only.
\<close>

definition reset :: "git \<Rightarrow> commit \<Rightarrow> git" where
  "reset g c = g\<lparr>refs := AList.update ''HEAD'' (sha c) (refs g), workdir := getTree c\<rparr>"

text \<open>
  \<open>repo.createCommit("HEAD", author, committer, message, tree, parents)\<close>: the engine refuses
  the commit when \<open>HEAD\<close> has a tip that is not the first parent; otherwise the commit is
  stored under its hash and \<open>HEAD\<close> moves to it.
\<close>

definition createCommit :: "'p platform \<Rightarrow> git \<Rightarrow> signature \<Rightarrow> signature \<Rightarrow> string \<Rightarrow> tree
                            \<Rightarrow> commit list \<Rightarrow> (error + string) \<times> git" where
  "createCommit pf g author committer msg t ps =
     (let d = \<lparr>c_author = author, c_committer = committer, c_message = msg, c_tree = t,
               c_parents = map sha ps\<rparr>;
          tip = map_of (refs g) ''HEAD''
      in if tip \<noteq> None \<and> (ps = [] \<or> tip \<noteq> Some (sha (hd ps))) then (Inl NotFirstParent, g)
         else (Inr (oidOf pf d),
               g\<lparr>objects := AList.update (oidOf pf d) d (objects g),
                 refs := AList.update ''HEAD'' (oidOf pf d) (refs g)\<rparr>))"

text \<open>
  The revision walk from a list of pending commits: every commit is visited once, its
  parents become pending; a commit that is missing from the object database is an error of
  the engine. The result lists the commits reached.
\<close>

function revWalk :: "(string \<times> cdata) list \<Rightarrow> string list \<Rightarrow> string list \<Rightarrow> error + string list" where
  "revWalk db [] seen = Inr seen"
| "revWalk db (x # pending) seen =
     (if x \<in> set seen then revWalk db pending seen
      else (case map_of db x of
              None \<Rightarrow> Inl NotFound
            | Some d \<Rightarrow> revWalk db (c_parents d @ pending) (x # seen)))"
  by pat_completeness auto
termination
proof (relation "measures [\<lambda>(db, pending, seen). card (fst ` set db - set seen),
                           \<lambda>(db, pending, seen). length pending]")
  show "wf (measures [\<lambda>(db, pending, seen). card (fst ` set db - set seen),
                      \<lambda>(db, pending, seen). length pending])"
    by simp
next
  fix db :: "(string \<times> cdata) list" and x :: string and pending seen :: "string list"
  show "((db, pending, seen), (db, x # pending, seen))
        \<in> measures [\<lambda>(db, pending, seen). card (fst ` set db - set seen),
                     \<lambda>(db, pending, seen). length pending]"
    by simp
next
  fix db :: "(string \<times> cdata) list" and x :: string and pending seen :: "string list" and d
  assume "x \<notin> set seen" and "map_of db x = Some d"
  then have "x \<in> fst ` set db - set seen"
    by (metis DiffI map_of_eq_None_iff option.distinct(1))
  then have "card ((fst ` set db - set seen) - {x}) < card (fst ` set db - set seen)"
    by (intro card_Diff1_less) auto
  moreover have "fst ` set db - set (x # seen) = (fst ` set db - set seen) - {x}"
    by auto
  ultimately have "card (fst ` set db - set (x # seen)) < card (fst ` set db - set seen)"
    by (simp only:)
  then show "((db, c_parents d @ pending, x # seen), (db, x # pending, seen))
        \<in> measures [\<lambda>(db, pending, seen). card (fst ` set db - set seen),
                     \<lambda>(db, pending, seen). length pending]"
    by simp
qed

text \<open>
  \<open>remote.push("HEAD:refs/heads/<branch>")\<close> never rejects. Origin takes the update when
  it can be reached and the branch is new or moves forward; then the remote-tracking
  reference of the clone follows. Otherwise nothing changes.
\<close>

definition fastForward :: "git \<Rightarrow> string option \<Rightarrow> string \<Rightarrow> bool" where
  "fastForward g old new =
     (case old of None \<Rightarrow> True
      | Some tip \<Rightarrow>
          (case revWalk (objects g) [new] [] of Inl e \<Rightarrow> False | Inr ids \<Rightarrow> tip \<in> set ids))"

definition push :: "'p Repo \<Rightarrow> string \<Rightarrow> 'p Repo" where
  "push s branch =
     (case map_of (refs (repo s)) ''HEAD'' of
        None \<Rightarrow> s
      | Some h \<Rightarrow>
          if reachable (origin s) \<and> fastForward (repo s) (map_of (branches (origin s)) branch) h
          then s\<lparr>origin := (origin s)\<lparr>
                   branches := AList.update branch h (branches (origin s)),
                   r_objects := AList.merge (r_objects (origin s)) (objects (repo s))\<rparr>,
                 repo := (repo s)\<lparr>refs := AList.update (tracking branch) h (refs (repo s))\<rparr>\<rparr>
          else s)"

subsection \<open>The functions of repo.js\<close>

text \<open>
  \<open>promise.catch(handler)\<close>, and the two places where JavaScript turns a value that may be
  undefined into a string: \<open>a || b\<close> (undefined and the empty string are falsy) and the
  template literal (undefined prints as \<open>undefined\<close>).
\<close>

definition catch :: "error + 'a \<Rightarrow> (error \<Rightarrow> error + 'a) \<Rightarrow> error + 'a" where
  "catch r handler = (case r of Inl e \<Rightarrow> handler e | Inr x \<Rightarrow> Inr x)"

definition orElse :: "string option \<Rightarrow> string \<Rightarrow> string" where
  "orElse a b = (case a of None \<Rightarrow> b | Some x \<Rightarrow> if x = [] then b else x)"

definition template :: "string option \<Rightarrow> string" where
  "template a = (case a of None \<Rightarrow> ''undefined'' | Some x \<Rightarrow> x)"

text \<open>The errors of repo.js, under the names the specification gives them.\<close>

definition VersionNotFound :: "string \<Rightarrow> error" where
  "VersionNotFound version = Error (''Branch or commit not found: '' @ CHR 0x27 # version @ [CHR 0x27])"

definition UpdateBranchNotFound :: error where
  "UpdateBranchNotFound = Error ''Invalid or missing update branch''"

definition MergeConflict :: error where
  "MergeConflict = Error ''Merge conflict''"

definition PushVerificationFailed :: error where
  "PushVerificationFailed = Error ''Push to remote failed''"

definition getCommitForUpdateBranch :: "git \<Rightarrow> string \<Rightarrow> error + commit" where
  "getCommitForUpdateBranch g reference =
     catch (getReferenceCommit g (''refs/remotes/origin/'' @ reference))
       (\<lambda>_. Inl UpdateBranchNotFound)"

definition getCommitByVersion :: "git \<Rightarrow> string \<Rightarrow> error + commit" where
  "getCommitByVersion g version =
     catch (catch (getReferenceCommit g (''refs/remotes/origin/'' @ version))
              (\<lambda>_. getCommit g version))
       (\<lambda>_. Inl (VersionNotFound version))"

text \<open>
  \<open>writeFiles\<close>: hard reset to the parent, remove what is below the path, write one file
  per entry of \<open>files\<close> (in the order of \<open>Object.keys\<close>), stage everything and write the
  tree. Paths are taken from the root of the working directory; the tree written is the
  content of the working directory.
\<close>

definition writeFiles :: "'p platform \<Rightarrow> git \<Rightarrow> commit \<Rightarrow> string \<Rightarrow> 'p props \<Rightarrow> tree \<times> git" where
  "writeFiles pf g parentCommit pth fs =
     (let g1 = reset g parentCommit;
          wd1 = rimraf_sync pf (pth @ ''/*'') (workdir g1);
          wd2 = foldl (\<lambda>wd (file, data). outputJsonSync pf (pth @ ''/'' @ file @ ''.json'') data wd)
                  wd1 fs
      in (wd2, g1\<lparr>workdir := wd2\<rparr>))"

definition createSignature :: "'p platform \<Rightarrow> signature" where
  "createSignature pf =
     (orElse (env pf ''SIGNATURE_NAME'') ''Git JSON API'',
      orElse (env pf ''SIGNATURE_MAIL'') ''mail@example.com'',
      now pf)"

definition isAncestor :: "git \<Rightarrow> commit \<Rightarrow> commit \<Rightarrow> error + bool" where
  "isAncestor g ancestorCommit c =
     (case revWalk (objects g) [sha c] [] of
        Inl e \<Rightarrow> Inl e
      | Inr ids \<Rightarrow> Inr (sha ancestorCommit \<in> set ids))"

definition commitAndMerge :: "'p platform \<Rightarrow> git \<Rightarrow> commit \<Rightarrow> commit \<Rightarrow> tree \<Rightarrow> string
                              \<Rightarrow> (error + string) \<times> git" where
  "commitAndMerge pf g parentCommit branchCommit treeOid msg =
     (let commitSignature = createSignature pf in
      case createCommit pf g commitSignature commitSignature msg treeOid [parentCommit] of
        (Inl e, g1) \<Rightarrow> (Inl e, g1)
      | (Inr commitOid, g1) \<Rightarrow>
          (case getCommit g1 commitOid of
             Inl e \<Rightarrow> (Inl e, g1)
           | Inr c \<Rightarrow>
               (case isAncestor g1 branchCommit c of
                  Inl e \<Rightarrow> (Inl e, g1)
                | Inr True \<Rightarrow> (Inr (sha c), g1)
                | Inr False \<Rightarrow>
                    (case Merge_commits pf g1 branchCommit c of
                       None \<Rightarrow> (Inl MergeConflict, g1)
                     | Some mergeTreeOid \<Rightarrow>
                         (let mergeSignature = createSignature pf in
                          case createCommit pf g1 mergeSignature mergeSignature ''Merge''
                                 mergeTreeOid [c, branchCommit] of
                            (Inl e, g2) \<Rightarrow> (Inl e, g2)
                          | (Inr mergeCommitOid, g2) \<Rightarrow>
                              (case getCommit g2 mergeCommitOid of
                                 Inl e \<Rightarrow> (Inl e, g2)
                               | Inr mergeCommit \<Rightarrow> (Inr (sha mergeCommit), g2)))))))"

definition pushHeadToOrigin :: "'p Repo \<Rightarrow> string \<Rightarrow> (error + unit) \<times> 'p Repo" where
  "pushHeadToOrigin s branch =
     (let s1 = push s branch in
      case getReferenceCommit (repo s1) ''HEAD'' of
        Inl e \<Rightarrow> (Inl e, s1)
      | Inr headCommit \<Rightarrow>
          (case getReferenceCommit (repo s1) (''refs/remotes/origin/'' @ branch) of
             Inl e \<Rightarrow> (Inl e, s1)
           | Inr remoteCommit \<Rightarrow>
               if sha headCommit \<noteq> sha remoteCommit then (Inl PushVerificationFailed, s1)
               else (Inr (), s1)))"

definition getData :: "'p platform \<Rightarrow> string \<Rightarrow> string \<Rightarrow> bool \<Rightarrow> 'p Repo
                       \<Rightarrow> (error + string \<times> 'p jsval option) \<times> 'p Repo" where
  "getData pf version pth listFiles s =
     (case fetch s of
        Inl e \<Rightarrow> (Inl e, s)
      | Inr s1 \<Rightarrow>
          (case getCommitByVersion (repo s1) version of
             Inl e \<Rightarrow> (Inl e, s1)
           | Inr c \<Rightarrow>
               (case update (JSON5_parse pf) c (cache s1) of
                  Inl e \<Rightarrow> (Inl e, s1)
                | Inr cache1 \<Rightarrow>
                    (case (if listFiles then Inr (Some (Node PlainObject (getFiles pth cache1)))
                           else getObject pth cache1) of
                       Inl e \<Rightarrow> (Inl e, s1\<lparr>cache := cache1\<rparr>)
                     | Inr data \<Rightarrow>
                         (Inr (getCommitHash cache1, data), s1\<lparr>cache := cache1\<rparr>)))))"

definition replacePath :: "'p platform \<Rightarrow> string \<Rightarrow> string option \<Rightarrow> string \<Rightarrow> 'p props \<Rightarrow> 'p Repo
                           \<Rightarrow> (error + string) \<times> 'p Repo" where
  "replacePath pf parentVersion updateBranch pth fs s =
     (case getCommitByVersion (repo s) parentVersion of
        Inl e \<Rightarrow> (Inl e, s)
      | Inr parentCommit \<Rightarrow>
          (case getCommitForUpdateBranch (repo s) (orElse updateBranch parentVersion) of
             Inl e \<Rightarrow> (Inl e, s)
           | Inr branchCommit \<Rightarrow>
               (case writeFiles pf (repo s) parentCommit pth fs of
                  (newTreeOid, g1) \<Rightarrow>
                    (case commitAndMerge pf g1 parentCommit branchCommit newTreeOid
                            (''Update '' @ CHR 0x27 # CHR ''/'' # pth @ [CHR 0x27]) of
                       (Inl e, g2) \<Rightarrow> (Inl e, s\<lparr>repo := g2\<rparr>)
                     | (Inr newHash, g2) \<Rightarrow>
                         (case pushHeadToOrigin (s\<lparr>repo := g2\<rparr>) (template updateBranch) of
                            (Inl e, s3) \<Rightarrow> (Inl e, s3)
                          | (Inr u, s3) \<Rightarrow> (Inr newHash, s3))))))"

section \<open>Properties of a snapshot\<close>

text \<open>
  The segments of an entry's store path, and a path conflict among the entries of a tree:
  the segments of one document are a strict prefix of the segments of another, so that one
  name is both a document and a directory of documents.
\<close>

definition segments :: "entry \<Rightarrow> string list" where
  "segments e = split CHR ''/'' (storePath e)"

definition pathConflict :: "entry list \<Rightarrow> bool" where
  "pathConflict es = (\<exists>e \<in> set es. \<exists>e' \<in> set es. strict_prefix (segments e) (segments e'))"

text \<open>
  The two directions of the consistency of a snapshot. Every entry of the flat map is found
  in the nested object by following the segments of its key. Everything found in the nested
  object at a path along own properties is a directory level above a key of the flat map,
  or the document of a key, or a value inside that document.
\<close>

definition flatInNested :: "'p jsval \<Rightarrow> 'p props \<Rightarrow> bool" where
  "flatInNested obj fl =
     (\<forall>k d. map_of fl k = Some d \<longrightarrow> get obj (split CHR ''/'' k) = Inr (Some d))"

definition nestedInFlat :: "'p jsval \<Rightarrow> 'p props \<Rightarrow> bool" where
  "nestedInFlat obj fl =
     (\<forall>q v. get obj q = Inr (Some v) \<longrightarrow>
        (\<exists>k d. map_of fl k = Some d \<and>
           (strict_prefix q (split CHR ''/'' k)
            \<or> (\<exists>s. q = split CHR ''/'' k @ s \<and> baseGet d s = Inr (Some v)))))"

text \<open>
  The entries whose names are ordinary: no segment of a store path is a name of the lists.
\<close>

definition ordinaryNames :: "entry list \<Rightarrow> bool" where
  "ordinaryNames es = (\<forall>e \<in> set es. \<forall>k \<in> set (segments e). \<not> reserved k)"

text \<open>
  A document that is an object or array lies above a later entry: the later \<open>set\<close> writes
  inside it.
\<close>

fun sharedAbove :: "(string \<Rightarrow> 'p jsval option) \<Rightarrow> entry list \<Rightarrow> bool" where
  "sharedAbove parse [] = False"
| "sharedAbove parse (e # es) =
     ((isObject (parse (getBlob e))
        \<and> (\<exists>e' \<in> set es. strict_prefix (segments e) (segments e')))
      \<or> sharedAbove parse es)"

text \<open>\<open>Array.prototype.join\<close>, which undoes \<open>split\<close>.\<close>

fun joinWith :: "char \<Rightarrow> string list \<Rightarrow> string" where
  "joinWith c [] = []"
| "joinWith c [w] = w"
| "joinWith c (w # ws) = w @ c # joinWith c ws"

section \<open>A test repository\<close>

text \<open>
  A small repository in the style of the fixture of the test suite: three commits, the
  branch \<open>master\<close> at the second and the branch \<open>branch1\<close> at the third, and a clone that
  is up to date. The documents are numbers and one object; the platform parses exactly the
  blobs of the fixture, names a new commit after its parents (\<open>n-c1\<close> is the new child
  of \<open>c1\<close>), and merges two trees by taking every file of both.
\<close>

definition exParse :: "string \<Rightarrow> int jsval option" where
  "exParse b = (if b = ''5'' then Some (Prim 5)
                else if b = ''2'' then Some (Prim 2)
                else if b = ''{x:1}'' then Some (Node PlainObject [(''x'', Prim 1)])
                else None)"

definition exStringify :: "int jsval \<Rightarrow> string" where
  "exStringify v = (case v of Prim n \<Rightarrow> (if n = 5 then ''5'' else ''2'') | Node kd ps \<Rightarrow> ''{x:1}'')"

definition exPlatform :: "int platform" where
  "exPlatform = \<lparr>
     JSON5_parse = exParse,
     oidOf = (\<lambda>d. CHR ''n'' # concat (map (\<lambda>p. CHR ''-'' # p) (c_parents d))),
     Merge_commits = (\<lambda>g a b. Some (AList.merge (getTree a) (getTree b))),
     rimraf_sync = (\<lambda>pat t. filter (\<lambda>(p, c). \<not> startsWith p (butlast pat)) t),
     outputJsonSync = (\<lambda>file data t. AList.update file (exStringify data) t),
     env = (\<lambda>v. None),
     now = 0\<rparr>"

definition exSig :: signature where
  "exSig = (''Test'', ''test@example.com'', 0)"

definition exC1 :: cdata where
  "exC1 = \<lparr>c_author = exSig, c_committer = exSig, c_message = ''Add rootFile.json'',
           c_tree = [(''rootFile.json'', ''5'')], c_parents = []\<rparr>"

definition exC2 :: cdata where
  "exC2 = \<lparr>c_author = exSig, c_committer = exSig, c_message = ''Add dir/nestedFile1.json'',
           c_tree = [(''rootFile.json'', ''5''), (''dir/nestedFile1.json'', ''{x:1}'')],
           c_parents = [''c1'']\<rparr>"

definition exC3 :: cdata where
  "exC3 = \<lparr>c_author = exSig, c_committer = exSig, c_message = ''Add dir/nestedFile2.json'',
           c_tree = [(''rootFile.json'', ''5''), (''dir/nestedFile1.json'', ''{x:1}''),
                     (''dir/nestedFile2.json'', ''2'')],
           c_parents = [''c2'']\<rparr>"

definition exOrigin :: remote where
  "exOrigin = \<lparr>reachable = True,
                branches = [(''master'', ''c2''), (''branch1'', ''c3'')],
                r_objects = [(''c1'', exC1), (''c2'', exC2), (''c3'', exC3)]\<rparr>"

definition exRepo :: "int Repo" where
  "exRepo = \<lparr>
     origin = exOrigin,
     repo = \<lparr>objects = [(''c1'', exC1), (''c2'', exC2), (''c3'', exC3)],
              refs = [(''HEAD'', ''c2''), (''refs/remotes/origin/master'', ''c2''),
                      (''refs/remotes/origin/branch1'', ''c3'')],
              workdir = c_tree exC2\<rparr>,
     cache = newCache\<rparr>"

text \<open>The same repository seen from a clone that has not yet fetched \<open>branch1\<close>.\<close>

definition exStale :: "int Repo" where
  "exStale = \<lparr>
     origin = exOrigin,
     repo = \<lparr>objects = [(''c1'', exC1), (''c2'', exC2)],
              refs = [(''HEAD'', ''c2''), (''refs/remotes/origin/master'', ''c2'')],
              workdir = c_tree exC2\<rparr>,
     cache = newCache\<rparr>"

text \<open>A commit in which \<open>a.json\<close> is a document and \<open>a\<close> is a directory with a document.\<close>

definition exConflict :: cdata where
  "exConflict = \<lparr>c_author = exSig, c_committer = exSig, c_message = ''Add a/b.json'',
                 c_tree = [(''a.json'', ''5''), (''a/b.json'', ''2'')], c_parents = []\<rparr>"

text \<open>The snapshots of the second commit and of the commit with the conflict.\<close>

definition exSnapshot :: "int Cache" where
  "exSnapshot = \<lparr>commitHash = ''c2'',
     object = Node PlainObject [(''rootFile'', Prim 5),
                (''dir'', Node PlainObject [(''nestedFile1'', Node PlainObject [(''x'', Prim 1)])])],
     files = [(''rootFile'', Prim 5), (''dir/nestedFile1'', Node PlainObject [(''x'', Prim 1)])]\<rparr>"

definition exConflictSnapshot :: "int Cache" where
  "exConflictSnapshot = \<lparr>commitHash = ''c9'',
     object = Node PlainObject [(''a'', Node PlainObject [(''b'', Prim 2)])],
     files = [(''a'', Prim 5), (''a/b'', Prim 2)]\<rparr>"

text \<open>The test repository with origin out of reach, and after a read of \<open>master\<close>.\<close>

definition exOffline :: "int Repo" where
  "exOffline = exRepo\<lparr>origin := exOrigin\<lparr>reachable := False\<rparr>\<rparr>"

definition exRepoRead :: "int Repo" where
  "exRepoRead = exRepo\<lparr>cache := exSnapshot\<rparr>"

section \<open>Lemmas\<close>

subsection \<open>Evaluating the test repository\<close>

lemmas cache_defs = update_def buildData_def getFileEntries_def storePath_def entry_path_def
  entry_name_def getBlob_def endsWith_def startsWith_def sha_def getTree_def newCache_def
  getCommitHash_def getObject_def getFiles_def get_def isIndex_def isDigit_def digitsValue_def
  inherited_def refused_def objectNames_def arrayNames_def refusedNames_def writesThrough_def

lemmas ex_defs = exParse_def exStringify_def exPlatform_def exSig_def exC1_def exC2_def exC3_def
  exOrigin_def exRepo_def exStale_def exConflict_def exSnapshot_def exConflictSnapshot_def

lemmas repo_defs = getCommit_def getReferenceCommit_def tracking_def fetch_def reset_def
  createCommit_def fastForward_def push_def catch_def orElse_def template_def
  VersionNotFound_def UpdateBranchNotFound_def MergeConflict_def PushVerificationFailed_def
  getCommitForUpdateBranch_def getCommitByVersion_def writeFiles_def createSignature_def
  isAncestor_def commitAndMerge_def pushHeadToOrigin_def getData_def replacePath_def
  AList.merge_def

lemmas eval_defs = repo_defs cache_defs ex_defs Let_def

lemma ex_update_c2: "update exParse (''c2'', exC2) newCache = Inr exSnapshot"
  by (simp add: cache_defs ex_defs)

lemma ex_update_conflict: "update exParse (''c9'', exConflict) newCache = Inr exConflictSnapshot"
  by (simp add: cache_defs ex_defs)

lemma ex_no_conflict: "\<not> pathConflict (getFileEntries (getTree (''c2'', exC2)))"
  by (simp add: pathConflict_def segments_def cache_defs ex_defs)

lemma ex_conflict: "pathConflict (getFileEntries (getTree (''c9'', exConflict)))"
  by (simp add: pathConflict_def segments_def cache_defs ex_defs)

text \<open>
  Builds and reads of the model: an array that \<open>set\<close> makes, and a document under a name
  that arrays inherit. Then the runs that leave the model: the \<open>length\<close> of an array that
  \<open>set\<close> made, the key \<open>__proto__\<close>, an entry written into a document, an inherited name
  read by \<open>get\<close>, and a read below a primitive.
\<close>

lemma ex_array:
  "buildData exParse [(''a/0.json'', ''5''), (''a/1.json'', ''2'')]
   = Inr (Node PlainObject [(''a'', Node Array [(''0'', Prim 5), (''1'', Prim 2)])],
          [(''a/0'', Prim 5), (''a/1'', Prim 2)])"
  by (simp add: cache_defs ex_defs)

lemma ex_own_name:
  "buildData exParse [(''keys.json'', ''5'')]
   = Inr (Node PlainObject [(''keys'', Prim 5)], [(''keys'', Prim 5)])"
  by (simp add: cache_defs ex_defs)

lemma ex_array_length:
  "buildData exParse [(''a/0.json'', ''5''), (''a/1.json'', ''5''), (''a/2.json'', ''5''),
                      (''a/length.json'', ''2'')] = Inl Unmodelled"
  by (simp add: cache_defs ex_defs)

lemma ex_proto_key: "buildData exParse [(''__proto__.json'', ''5'')] = Inl Unmodelled"
  by (simp add: cache_defs ex_defs)

lemma ex_written_document:
  "buildData exParse [(''a.json'', ''{x:1}''), (''a/b.json'', ''2'')] = Inl Unmodelled"
  by (simp add: cache_defs ex_defs)

lemma ex_inherited_read: "getObject ''constructor'' exSnapshot = Inl Unmodelled"
  by (simp add: cache_defs ex_defs)

lemma ex_below_primitive: "getObject ''rootFile/x'' exSnapshot = Inl Unmodelled"
  by (simp add: cache_defs ex_defs)

lemma ex_merge_write:
  "replacePath exPlatform ''c1'' (Some ''master'') ''dir'' [(''nestedFile2'', Prim 2)] exRepo
   = (Inr ''n-n-c1-c2'',
      snd (replacePath exPlatform ''c1'' (Some ''master'') ''dir'' [(''nestedFile2'', Prim 2)] exRepo))"
  by (simp add: eval_defs)

lemma ex_merge_parents:
  "map_option c_parents (map_of (objects (repo (snd
      (replacePath exPlatform ''c1'' (Some ''master'') ''dir'' [(''nestedFile2'', Prim 2)] exRepo))))
      ''n-n-c1-c2'') = Some [''n-c1'', ''c2'']"
  by (simp add: eval_defs)

lemma ex_undefined_write:
  "fst (replacePath exPlatform ''master'' None ''dir'' [(''nestedFile2'', Prim 2)] exRepo) = Inr ''n-c2''
   \<and> branches (origin (snd (replacePath exPlatform ''master'' None ''dir'' [(''nestedFile2'', Prim 2)] exRepo)))
     = [(''master'', ''c2''), (''branch1'', ''c3''), (''undefined'', ''n-c2'')]"
  by (simp add: eval_defs)

subsection \<open>The path functions\<close>

lemma isObject_cases: "isObject x \<Longrightarrow> \<exists>kd ps. x = Some (Node kd ps)"
  by (cases x rule: isObject.cases) auto

text \<open>One step of \<open>set\<close> below the first key: the property is kept or replaced by an empty one.\<close>

lemma baseSet_step:
  assumes "baseSet (Node kd ps) (k # k' # ks) v = Inr n"
  shows "\<exists>kd' ps' nested.
           baseSet (Node kd' ps') (k' # ks) v = Inr nested
         \<and> n = Node kd (AList.update k nested ps)
         \<and> (map_of ps k = Some (Node kd' ps') \<or> \<not> isObject (map_of ps k) \<and> ps' = [])"
proof (cases "isObject (map_of ps k)")
  case True
  then obtain kd' ps' where "map_of ps k = Some (Node kd' ps')"
    using isObject_cases by blast
  with True assms show ?thesis
    by (auto simp: Let_def split: if_splits sum.splits)
next
  case False
  with assms show ?thesis
    by (auto simp: Let_def split: if_splits sum.splits)
qed

lemma baseSet_last:
  assumes "baseSet (Node kd ps) [k] v = Inr n"
  shows "n = Node kd (AList.update k v ps)"
  using assms by (auto split: if_splits)

lemma baseSet_Node:
  assumes "baseSet (Node kd ps) ks v = Inr n"
  shows "\<exists>ps'. n = Node kd ps'"
proof (cases ks)
  case Nil
  with assms show ?thesis by auto
next
  case (Cons k ks')
  show ?thesis
  proof (cases ks')
    case Nil
    with Cons assms baseSet_last show ?thesis by blast
  next
    case (Cons k' ks'')
    with \<open>ks = k # ks'\<close> assms baseSet_step[of kd ps k k' ks'' v n] show ?thesis by blast
  qed
qed

lemma reserved_refused: "\<not> reserved k \<Longrightarrow> \<not> refused kd k"
  by (auto simp: reserved_def refused_def arrayNames_def)

lemma reserved_inherited: "\<not> reserved k \<Longrightarrow> \<not> inherited kd k"
  by (auto simp: reserved_def inherited_def)

lemma baseSet_total:
  assumes "\<forall>k \<in> set ks. \<not> reserved k"
  shows "\<exists>n. baseSet (Node kd ps) ks v = Inr n"
  using assms
proof (induction ks arbitrary: kd ps)
  case Nil
  then show ?case by simp
next
  case (Cons k ks)
  from Cons.prems have nr: "\<not> refused kd k" "\<not> inherited kd k"
    using reserved_refused reserved_inherited by auto
  show ?case
  proof (cases ks)
    case Nil
    with nr show ?thesis by simp
  next
    case (Cons k' ks')
    let ?new = "if isObject (map_of ps k) then the (map_of ps k)
                else if isIndex k' then Node Array [] else Node PlainObject []"
    obtain kd' ps' where new: "?new = Node kd' ps'"
    proof (cases "isObject (map_of ps k)")
      case True
      then show ?thesis using that by (auto dest: isObject_cases)
    next
      case False
      then show ?thesis using that by (cases "isIndex k'") auto
    qed
    from Cons.IH[of kd' ps'] Cons.prems obtain n where st: "baseSet (Node kd' ps') ks v = Inr n"
      by auto
    from nr have "baseSet (Node kd ps) (k # k' # ks') v
          = (case baseSet ?new (k' # ks') v of
               Inl e \<Rightarrow> Inl e | Inr nested \<Rightarrow> Inr (Node kd (AList.update k nested ps)))"
      by (simp add: Let_def)
    with st new Cons show ?thesis by (simp del: baseSet.simps)
  qed
qed

lemma baseGet_update_same:
  "baseGet (Node kd (AList.update k nested ps)) (k # q) = baseGet nested q"
  by (simp add: update_conv')

lemma baseGet_update_other:
  "a \<noteq> k \<Longrightarrow> baseGet (Node kd (AList.update k nested ps)) (a # q) = baseGet (Node kd ps) (a # q)"
  by (simp add: update_conv')

lemma baseGet_baseSet_ext:
  assumes "baseSet (Node kd ps) ks v = Inr n" and "ks \<noteq> []"
  shows "baseGet n (ks @ s) = baseGet v s"
  using assms
proof (induction ks arbitrary: kd ps n)
  case Nil
  then show ?case by simp
next
  case (Cons k ks)
  show ?case
  proof (cases ks)
    case Nil
    with Cons.prems(1) have "baseSet (Node kd ps) [k] v = Inr n" by (simp only:)
    then have "n = Node kd (AList.update k v ps)" using baseSet_last by blast
    then have "baseGet n ((k # ks) @ s) = baseGet v (ks @ s)"
      by (simp only: append_Cons baseGet_update_same)
    with Nil show ?thesis by (simp only: append_Nil)
  next
    case (Cons k' ks')
    with Cons.prems(1) have "baseSet (Node kd ps) (k # k' # ks') v = Inr n" by (simp only:)
    from baseSet_step[OF this] Cons obtain kd' ps' nested
      where st: "baseSet (Node kd' ps') ks v = Inr nested"
        and n: "n = Node kd (AList.update k nested ps)"
      by blast
    have "ks \<noteq> []" using Cons by (simp only: list.distinct not_False_eq_True)
    from Cons.IH[OF st this] have "baseGet nested (ks @ s) = baseGet v s" .
    moreover have "baseGet n ((k # ks) @ s) = baseGet nested (ks @ s)"
      by (simp only: n append_Cons baseGet_update_same)
    ultimately show ?thesis by (simp only:)
  qed
qed

text \<open>
  A path that leaves the path of \<open>set\<close> finds a value after the call where it found that
  value before.
\<close>

lemma baseGet_baseSet_other:
  assumes "baseSet (Node kd ps) ks v = Inr n" and "\<not> prefix q ks" and "\<not> prefix ks q"
  shows "(baseGet n q = Inr (Some x)) = (baseGet (Node kd ps) q = Inr (Some x))"
  using assms
proof (induction ks arbitrary: kd ps q n)
  case Nil
  then show ?case by simp
next
  case (Cons k ks)
  from Cons.prems obtain a q' where q: "q = a # q'" by (cases q) auto
  show ?case
  proof (cases "a = k")
    case False
    obtain nested where n: "n = Node kd (AList.update k nested ps)"
    proof (cases ks)
      case Nil
      with Cons.prems(1) have "baseSet (Node kd ps) [k] v = Inr n" by (simp only:)
      then show ?thesis using that baseSet_last by blast
    next
      case (Cons k' ks')
      with Cons.prems(1) have "baseSet (Node kd ps) (k # k' # ks') v = Inr n" by (simp only:)
      from baseSet_step[OF this] show ?thesis using that by blast
    qed
    from False have "baseGet n q = baseGet (Node kd ps) q"
      unfolding n q by (rule baseGet_update_other)
    then show ?thesis by (simp only:)
  next
    case ak: True
    with q Cons.prems have np: "\<not> prefix q' ks" "\<not> prefix ks q'" by auto
    then obtain b q'' where q': "q' = b # q''" by (cases q') auto
    from np obtain k' ks' where ks: "ks = k' # ks'" by (cases ks) auto
    from Cons.prems(1) ks have "baseSet (Node kd ps) (k # k' # ks') v = Inr n" by (simp only:)
    from baseSet_step[OF this] ks obtain kd' ps' nested
      where st: "baseSet (Node kd' ps') ks v = Inr nested"
        and n: "n = Node kd (AList.update k nested ps)"
        and old: "map_of ps k = Some (Node kd' ps') \<or> \<not> isObject (map_of ps k) \<and> ps' = []"
      by blast
    have ih: "(baseGet nested q' = Inr (Some x)) = (baseGet (Node kd' ps') q' = Inr (Some x))"
      using Cons.IH[OF st np] .
    have new: "baseGet n q = baseGet nested q'"
      unfolding n q ak by (rule baseGet_update_same)
    from old show ?thesis
    proof
      assume m: "map_of ps k = Some (Node kd' ps')"
      have "baseGet (Node kd ps) q = baseGet (Node kd' ps') q'"
        unfolding q ak by (simp add: m)
      with new ih show ?thesis by (simp only:)
    next
      assume e: "\<not> isObject (map_of ps k) \<and> ps' = []"
      have 1: "baseGet (Node kd' ps') q' \<noteq> Inr (Some x)"
        unfolding q' using e by simp
      have 2: "baseGet (Node kd ps) q \<noteq> Inr (Some x)"
      proof (cases "map_of ps k")
        case None
        then show ?thesis unfolding q ak q' by simp
      next
        case (Some y)
        with e obtain p where "y = Prim p" by (cases y) auto
        with Some show ?thesis unfolding q ak q' by simp
      qed
      from 1 2 new ih show ?thesis by (simp only:)
    qed
  qed
qed

subsection \<open>Splitting and joining\<close>

lemma split_not_Nil: "split c s \<noteq> []"
  by (induction s) (auto split: list.splits)

lemma joinWith_split: "joinWith c (split c s) = s"
proof (induction s)
  case Nil
  then show ?case by simp
next
  case (Cons x xs)
  obtain w ws where sp: "split c xs = w # ws"
    using split_not_Nil[of c xs] by (cases "split c xs") auto
  show ?case
  proof (cases "x = c")
    case True
    with Cons sp show ?thesis by simp
  next
    case False
    with Cons sp show ?thesis by (cases ws) auto
  qed
qed

lemma split_inj: "split c s = split c t \<Longrightarrow> s = t"
  by (metis joinWith_split)

lemma startsWith_prefix: "startsWith s p = prefix p s"
proof
  assume "startsWith s p"
  then have "s = p @ drop (length p) s"
    by (metis append_take_drop_id startsWith_def)
  then show "prefix p s" by (metis prefixI)
next
  assume "prefix p s"
  then show "startsWith s p" by (auto simp: startsWith_def prefix_def)
qed

subsection \<open>The build loop keeps the two forms consistent\<close>

lemma step_flatInNested:
  assumes inv: "flatInNested (Node kd ps) fl"
    and free: "\<forall>k \<in> fst ` set fl. \<not> strict_prefix (split CHR ''/'' k) (split CHR ''/'' p)
                                 \<and> \<not> strict_prefix (split CHR ''/'' p) (split CHR ''/'' k)"
    and st: "baseSet (Node kd ps) (split CHR ''/'' p) d = Inr n"
  shows "flatInNested n (AList.update p d fl)"
  unfolding flatInNested_def
proof (intro allI impI)
  fix k d'
  assume m: "map_of (AList.update p d fl) k = Some d'"
  let ?sp = "split CHR ''/'' p" and ?sk = "split CHR ''/'' k"
  have ne: "?sk \<noteq> []" by (rule split_not_Nil)
  show "get n ?sk = Inr (Some d')"
  proof (cases "k = p")
    case True
    with m have "d' = d" by (simp add: update_conv')
    moreover have "baseGet n (?sp @ []) = baseGet d []"
      using st split_not_Nil by (rule baseGet_baseSet_ext)
    ultimately show ?thesis using True ne by (simp add: get_def)
  next
    case False
    with m have old: "map_of fl k = Some d'" by (simp add: update_conv')
    then have "k \<in> fst ` set fl" by (metis map_of_eq_None_iff option.distinct(1))
    with free have "\<not> strict_prefix ?sk ?sp" "\<not> strict_prefix ?sp ?sk" by auto
    moreover have "?sk \<noteq> ?sp" using False split_inj by blast
    ultimately have "\<not> prefix ?sk ?sp" "\<not> prefix ?sp ?sk"
      by (auto simp: strict_prefix_def)
    with st have "(baseGet n ?sk = Inr (Some d')) = (baseGet (Node kd ps) ?sk = Inr (Some d'))"
      by (rule baseGet_baseSet_other)
    moreover from inv old have "get (Node kd ps) ?sk = Inr (Some d')"
      unfolding flatInNested_def by blast
    ultimately show ?thesis using ne by (simp add: get_def)
  qed
qed

lemma step_nestedInFlat:
  assumes inv: "nestedInFlat (Node kd ps) fl"
    and st: "baseSet (Node kd ps) (split CHR ''/'' p) d = Inr n"
  shows "nestedInFlat n (AList.update p d fl)"
  unfolding nestedInFlat_def
proof (intro allI impI)
  fix q v
  let ?sp = "split CHR ''/'' p"
  assume g: "get n q = Inr (Some v)"
  then have qne: "q \<noteq> []" and bg: "baseGet n q = Inr (Some v)"
    by (auto simp: get_def split: if_splits)
  have pd: "map_of (AList.update p d fl) p = Some d" by (simp add: update_conv')
  show "\<exists>k d'. map_of (AList.update p d fl) k = Some d' \<and>
           (strict_prefix q (split CHR ''/'' k)
            \<or> (\<exists>s. q = split CHR ''/'' k @ s \<and> baseGet d' s = Inr (Some v)))"
  proof (cases "prefix ?sp q")
    case True
    then obtain s where s: "q = ?sp @ s" by (auto simp: prefix_def)
    have "baseGet n (?sp @ s) = baseGet d s"
      using st split_not_Nil by (rule baseGet_baseSet_ext)
    with bg s have "baseGet d s = Inr (Some v)" by simp
    with pd s show ?thesis by blast
  next
    case np: False
    show ?thesis
    proof (cases "prefix q ?sp")
      case True
      with np have "strict_prefix q ?sp" by (auto simp: strict_prefix_def)
      with pd show ?thesis by blast
    next
      case False
      with st have "(baseGet n q = Inr (Some v)) = (baseGet (Node kd ps) q = Inr (Some v))"
        using np by (rule baseGet_baseSet_other)
      with bg qne have "get (Node kd ps) q = Inr (Some v)" by (simp add: get_def)
      with inv obtain k d' where kd: "map_of fl k = Some d'"
        and rel: "strict_prefix q (split CHR ''/'' k)
                  \<or> (\<exists>s. q = split CHR ''/'' k @ s \<and> baseGet d' s = Inr (Some v))"
        unfolding nestedInFlat_def by blast
      have "k \<noteq> p"
      proof
        assume "k = p"
        with rel have "prefix q ?sp \<or> prefix ?sp q" by (auto simp: strict_prefix_def)
        with np False show False by blast
      qed
      with kd have "map_of (AList.update p d fl) k = Some d'" by (simp add: update_conv')
      with rel show ?thesis by blast
    qed
  qed
qed

text \<open>One turn of the loop that does not stop: the document parsed and \<open>set\<close> returned.\<close>

lemma buildLoop_step:
  assumes "buildLoop parse (e # es) (obj, fl) = Inr r"
  shows "\<exists>d n. parse (getBlob e) = Some d
           \<and> baseSet obj (segments e) d = Inr n
           \<and> \<not> writesThrough fl (segments e)
           \<and> buildLoop parse es (n, AList.update (storePath e) d fl) = Inr r"
proof (cases "parse (getBlob e)")
  case None
  with assms show ?thesis by simp
next
  case (Some d)
  show ?thesis
  proof (cases "baseSet obj (segments e) d")
    case (Inl err)
    with Some assms show ?thesis by (simp add: segments_def split: if_splits)
  next
    case (Inr n)
    with Some assms show ?thesis by (simp add: segments_def split: if_splits)
  qed
qed

lemma buildLoop_consistent:
  assumes "buildLoop parse es (Node kd ps, fl) = Inr (obj, fl')"
    and "flatInNested (Node kd ps) fl" and "nestedInFlat (Node kd ps) fl"
    and "\<not> pathConflict es"
    and "\<forall>k \<in> fst ` set fl. \<forall>e \<in> set es.
            \<not> strict_prefix (split CHR ''/'' k) (segments e)
          \<and> \<not> strict_prefix (segments e) (split CHR ''/'' k)"
  shows "flatInNested obj fl' \<and> nestedInFlat obj fl'"
  using assms
proof (induction es arbitrary: kd ps fl)
  case Nil
  then show ?case by simp
next
  case (Cons e es)
  from buildLoop_step[OF Cons.prems(1)] obtain d n where d: "parse (getBlob e) = Some d"
    and st: "baseSet (Node kd ps) (segments e) d = Inr n"
    and rest: "buildLoop parse es (n, AList.update (storePath e) d fl) = Inr (obj, fl')"
    by blast
  obtain ps1 where n: "n = Node kd ps1"
    using baseSet_Node[OF st] by blast
  have fr: "\<forall>k \<in> fst ` set fl. \<not> strict_prefix (split CHR ''/'' k) (split CHR ''/'' (storePath e))
                \<and> \<not> strict_prefix (split CHR ''/'' (storePath e)) (split CHR ''/'' k)"
    using Cons.prems(5) by (simp add: segments_def)
  have f1: "flatInNested (Node kd ps1) (AList.update (storePath e) d fl)"
    using step_flatInNested[OF Cons.prems(2) fr st[unfolded segments_def]] n by simp
  have f2: "nestedInFlat (Node kd ps1) (AList.update (storePath e) d fl)"
    using step_nestedInFlat[OF Cons.prems(3) st[unfolded segments_def]] n by simp
  have f3: "\<not> pathConflict es" using Cons.prems(4) by (auto simp: pathConflict_def)
  have f4: "\<forall>k \<in> fst ` set (AList.update (storePath e) d fl). \<forall>e' \<in> set es.
            \<not> strict_prefix (split CHR ''/'' k) (segments e')
          \<and> \<not> strict_prefix (segments e') (split CHR ''/'' k)"
  proof (intro ballI)
    fix k e' assume k: "k \<in> fst ` set (AList.update (storePath e) d fl)" and e': "e' \<in> set es"
    from k have "k = storePath e \<or> k \<in> fst ` set fl"
      by (auto simp: dom_update)
    then show "\<not> strict_prefix (split CHR ''/'' k) (segments e')
          \<and> \<not> strict_prefix (segments e') (split CHR ''/'' k)"
    proof
      assume "k = storePath e"
      with Cons.prems(4) e' show ?thesis by (auto simp: pathConflict_def segments_def)
    next
      assume "k \<in> fst ` set fl"
      with Cons.prems(5) e' show ?thesis by auto
    qed
  qed
  from Cons.IH[OF rest[unfolded n] f1 f2 f3 f4] show ?case .
qed

lemma buildData_consistent:
  assumes "buildData parse es = Inr (obj, fl)" and "\<not> pathConflict es"
  shows "flatInNested obj fl \<and> nestedInFlat obj fl"
proof -
  have "flatInNested (Node PlainObject []) ([] :: 'a props)"
    by (simp add: flatInNested_def)
  moreover have "nestedInFlat (Node PlainObject []) ([] :: 'a props)"
  proof -
    have "baseGet (Node PlainObject []) q \<noteq> Inr (Some v)" if "q \<noteq> []"
      for q :: "string list" and v :: "'a jsval"
      using that by (cases q) auto
    then show ?thesis by (auto simp: nestedInFlat_def get_def split: if_splits)
  qed
  ultimately show ?thesis
    using buildLoop_consistent[of parse es PlainObject "[]" "[]" obj fl] assms
    by (simp add: buildData_def)
qed

subsection \<open>The errors of a build\<close>

lemma baseSet_error: "baseSet x ks v = Inl err \<Longrightarrow> err = Unmodelled"
proof (induction x ks v rule: baseSet.induct)
  case (4 kd ps k k' ks v)
  show ?case
  proof (cases "refused kd k \<or> (map_of ps k = None \<and> inherited kd k)")
    case True
    with 4(2) show ?thesis by simp
  next
    case False
    let ?new = "if isObject (map_of ps k) then the (map_of ps k)
                else if isIndex k' then Node Array [] else Node PlainObject []"
    define r where "r = baseSet ?new (k' # ks) v"
    from False have "baseSet (Node kd ps) (k # k' # ks) v
          = (case r of Inl e \<Rightarrow> Inl e | Inr nested \<Rightarrow> Inr (Node kd (AList.update k nested ps)))"
      unfolding r_def by (cases "map_of ps k") (auto simp: Let_def)
    with 4(2) have "r = Inl err" by (cases r) (simp_all del: baseSet.simps)
    then have "baseSet ?new (k' # ks) v = Inl err" unfolding r_def .
    then show ?thesis by (rule 4(1)[OF False refl refl])
  qed
qed (auto split: if_splits)

lemma buildLoop_error:
  "buildLoop parse es acc = Inl err \<Longrightarrow> err = SyntaxError \<or> err = Unmodelled"
proof (induction es arbitrary: acc)
  case Nil
  then show ?case by simp
next
  case (Cons e es)
  obtain obj fl where acc: "acc = (obj, fl)" by (cases acc)
  show ?case
  proof (cases "parse (getBlob e)")
    case None
    with Cons.prems acc show ?thesis by simp
  next
    case (Some d)
    show ?thesis
    proof (cases "storePath e = ''__proto__'' \<or> writesThrough fl (split CHR ''/'' (storePath e))")
      case True
      with Some Cons.prems acc show ?thesis by auto
    next
      case False
      show ?thesis
      proof (cases "baseSet obj (split CHR ''/'' (storePath e)) d")
        case (Inl x)
        with False Some Cons.prems acc baseSet_error[OF Inl] show ?thesis by auto
      next
        case (Inr n)
        with False Some Cons.prems acc
        have "buildLoop parse es (n, AList.update (storePath e) d fl) = Inl err" by auto
        then show ?thesis by (rule Cons.IH)
      qed
    qed
  qed
qed

lemma set_update_subset: "set (AList.update k v al) \<subseteq> insert (k, v) (set al)"
  by (induction al) auto

text \<open>
  The loop returns when every document parses, the names are ordinary and no entry is
  written into a document.
\<close>

lemma buildLoop_total:
  assumes "\<forall>e \<in> set es. parse (getBlob e) \<noteq> None"
    and "ordinaryNames es"
    and "\<not> sharedAbove parse es"
    and "\<forall>(k, d) \<in> set fl. isObject (Some d) \<longrightarrow>
           (\<forall>e \<in> set es. \<not> strict_prefix (split CHR ''/'' k) (segments e))"
  shows "\<exists>obj' fl'. buildLoop parse es (Node kd ps, fl) = Inr (obj', fl')"
  using assms
proof (induction es arbitrary: kd ps fl)
  case Nil
  then show ?case by simp
next
  case (Cons e es)
  from Cons.prems(1) obtain d where d: "parse (getBlob e) = Some d" by auto
  from Cons.prems(2) have ord: "\<forall>k \<in> set (segments e). \<not> reserved k"
    by (simp add: ordinaryNames_def)
  have np: "storePath e \<noteq> ''__proto__''"
  proof
    assume "storePath e = ''__proto__''"
    then have "segments e = [''__proto__'']" by (simp add: segments_def)
    with ord show False by (simp add: reserved_def objectNames_def)
  qed
  have nw: "\<not> writesThrough fl (split CHR ''/'' (storePath e))"
    using Cons.prems(4) by (auto simp: writesThrough_def segments_def)
  from baseSet_total[OF ord] obtain n where st: "baseSet (Node kd ps) (segments e) d = Inr n"
    by blast
  obtain ps1 where n: "n = Node kd ps1" using baseSet_Node[OF st] by blast
  have step: "buildLoop parse (e # es) (Node kd ps, fl)
              = buildLoop parse es (Node kd ps1, AList.update (storePath e) d fl)"
    using d np nw st n by (simp add: segments_def)
  have h1: "\<forall>e \<in> set es. parse (getBlob e) \<noteq> None" using Cons.prems(1) by simp
  have h2: "ordinaryNames es" using Cons.prems(2) by (simp add: ordinaryNames_def)
  have h3: "\<not> sharedAbove parse es" using Cons.prems(3) by simp
  have h4: "\<forall>(k, d') \<in> set (AList.update (storePath e) d fl). isObject (Some d') \<longrightarrow>
           (\<forall>e' \<in> set es. \<not> strict_prefix (split CHR ''/'' k) (segments e'))"
  proof (intro ballI, clarify)
    fix k d' e'
    assume m: "(k, d') \<in> set (AList.update (storePath e) d fl)" and ob: "isObject (Some d')"
      and e': "e' \<in> set es" and sp: "strict_prefix (split CHR ''/'' k) (segments e')"
    from m set_update_subset have "(k, d') = (storePath e, d) \<or> (k, d') \<in> set fl" by fastforce
    then show False
    proof
      assume "(k, d') = (storePath e, d)"
      with ob sp e' d Cons.prems(3) show False by (auto simp: segments_def)
    next
      assume "(k, d') \<in> set fl"
      with Cons.prems(4) ob e' sp show False by auto
    qed
  qed
  from Cons.IH[OF h1 h2 h3 h4, of kd ps1] step show ?case by simp
qed

lemma buildData_total:
  assumes "\<forall>e \<in> set es. parse (getBlob e) \<noteq> None"
    and "ordinaryNames es" and "\<not> sharedAbove parse es"
  shows "\<exists>obj fl. buildData parse es = Inr (obj, fl)"
  using buildLoop_total[OF assms, of "[]" PlainObject "[]"] by (simp add: buildData_def)

lemma buildData_no_Error: "buildData parse es \<noteq> Inl (Error m)"
  using buildLoop_error[of parse es "(Node PlainObject [], [])" "Error m"]
  by (auto simp: buildData_def)


lemma sharedAbove_pathConflict: "sharedAbove parse es \<Longrightarrow> pathConflict es"
proof (induction es)
  case Nil
  then show ?case by simp
next
  case (Cons e es)
  from Cons.prems have "(\<exists>e' \<in> set es. strict_prefix (segments e) (segments e')) \<or> sharedAbove parse es"
    by auto
  then show ?case
  proof
    assume "\<exists>e' \<in> set es. strict_prefix (segments e) (segments e')"
    then show ?thesis by (auto simp: pathConflict_def)
  next
    assume "sharedAbove parse es"
    from Cons.IH[OF this] show ?thesis by (auto simp: pathConflict_def)
  qed
qed

text \<open>
  The build of a commit returns a snapshot when every document parses, the names are
  ordinary and there is no path conflict.
\<close>

lemma update_returns:
  assumes "\<forall>e \<in> set (getFileEntries (getTree c)). parse (getBlob e) \<noteq> None"
    and "ordinaryNames (getFileEntries (getTree c))"
    and "\<not> pathConflict (getFileEntries (getTree c))"
  shows "\<exists>this'. update parse c this = Inr this'"
proof -
  from assms(3) have "\<not> sharedAbove parse (getFileEntries (getTree c))"
    using sharedAbove_pathConflict by blast
  from buildData_total[OF assms(1,2) this] show ?thesis
    by (auto simp: update_def)
qed

subsection \<open>The steps of a write\<close>

lemma revWalk_error: "revWalk db pending seen = Inl e \<Longrightarrow> e = NotFound"
  by (induction db pending seen rule: revWalk.induct) (auto split: if_splits option.splits)

lemma createCommit_cases:
  "createCommit pf g a c msg t ps = (r, g') \<Longrightarrow>
   (r = Inl NotFirstParent \<and> g' = g)
   \<or> (\<exists>d. d = \<lparr>c_author = a, c_committer = c, c_message = msg, c_tree = t,
                  c_parents = map sha ps\<rparr>
          \<and> r = Inr (oidOf pf d)
          \<and> g' = g\<lparr>objects := AList.update (oidOf pf d) d (objects g),
                    refs := AList.update ''HEAD'' (oidOf pf d) (refs g)\<rparr>)"
  by (auto simp: createCommit_def Let_def split: if_splits)

lemma getCommit_after_createCommit:
  "createCommit pf g a c msg t ps = (Inr oid, g') \<Longrightarrow>
   getCommit g' oid = Inr (oid, \<lparr>c_author = a, c_committer = c, c_message = msg, c_tree = t,
                                 c_parents = map sha ps\<rparr>)"
  by (auto simp: createCommit_def getCommit_def Let_def update_conv' split: if_splits)

lemma createCommit_HEAD:
  "createCommit pf g a c msg t ps = (Inr oid, g') \<Longrightarrow> map_of (refs g') ''HEAD'' = Some oid"
  by (auto simp: createCommit_def Let_def update_conv' split: if_splits)

lemma isAncestor_error: "isAncestor g a c = Inl e \<Longrightarrow> e = NotFound"
  unfolding isAncestor_def
  by (cases "revWalk (objects g) [sha c] []") (auto dest: revWalk_error simp del: revWalk.simps)

text \<open>What a write that gets through \<open>commitAndMerge\<close> has done.\<close>

lemma commitAndMerge_success:
  assumes "commitAndMerge pf g pc bc t msg = (Inr h, g')"
  shows "\<exists>fresh g1.
           c_parents fresh = [sha pc] \<and> c_tree fresh = t \<and> c_message fresh = msg
         \<and> createCommit pf g (createSignature pf) (createSignature pf) msg t [pc]
             = (Inr (oidOf pf fresh), g1)
         \<and> (isAncestor g1 bc (oidOf pf fresh, fresh) = Inr True
               \<and> h = oidOf pf fresh \<and> getCommit g' h = Inr (h, fresh)
            \<or> isAncestor g1 bc (oidOf pf fresh, fresh) = Inr False
               \<and> (\<exists>m. getCommit g' h = Inr (h, m)
                      \<and> c_parents m = [oidOf pf fresh, sha bc]))
         \<and> map_of (refs g') ''HEAD'' = Some h"
proof -
  let ?sig = "createSignature pf"
  obtain r1 g1 where c1: "createCommit pf g ?sig ?sig msg t [pc] = (r1, g1)"
    by (cases "createCommit pf g ?sig ?sig msg t [pc]")
  from assms c1 obtain oid where r1: "r1 = Inr oid"
    by (cases r1) (auto simp: commitAndMerge_def Let_def)
  let ?fresh = "\<lparr>c_author = ?sig, c_committer = ?sig, c_message = msg, c_tree = t,
                  c_parents = [sha pc]\<rparr>"
  from createCommit_cases[OF c1] r1 have oid: "oid = oidOf pf ?fresh" by auto
  from getCommit_after_createCommit[OF c1[unfolded r1]]
  have gc: "getCommit g1 oid = Inr (oid, ?fresh)" by simp
  from createCommit_HEAD[OF c1[unfolded r1]] have hd1: "map_of (refs g1) ''HEAD'' = Some oid" .
  obtain anc where anc: "isAncestor g1 bc (oid, ?fresh) = Inr anc"
    using assms c1 r1 gc by (cases "isAncestor g1 bc (oid, ?fresh)")
      (auto simp: commitAndMerge_def Let_def)
  show ?thesis
  proof (cases anc)
    case True
    with assms c1 r1 gc anc have "h = oid" "g' = g1"
      by (auto simp: commitAndMerge_def Let_def sha_def)
    with True anc gc hd1 c1 r1 oid show ?thesis
      by (intro exI[of _ ?fresh] exI[of _ g1]) simp
  next
    case False
    with assms c1 r1 gc anc obtain mt where mt: "Merge_commits pf g1 bc (oid, ?fresh) = Some mt"
      by (cases "Merge_commits pf g1 bc (oid, ?fresh)")
         (auto simp: commitAndMerge_def Let_def)
    obtain r2 g2 where c2: "createCommit pf g1 ?sig ?sig ''Merge'' mt [(oid, ?fresh), bc] = (r2, g2)"
      by (cases "createCommit pf g1 ?sig ?sig ''Merge'' mt [(oid, ?fresh), bc]")
    from assms c1 r1 gc anc False mt c2 obtain moid where r2: "r2 = Inr moid"
      by (cases r2) (auto simp: commitAndMerge_def Let_def)
    let ?m = "\<lparr>c_author = ?sig, c_committer = ?sig, c_message = ''Merge'', c_tree = mt,
               c_parents = [oid, sha bc]\<rparr>"
    from createCommit_cases[OF c2] r2 have moid: "moid = oidOf pf ?m" by (auto simp: sha_def)
    from getCommit_after_createCommit[OF c2[unfolded r2]]
    have gm: "getCommit g2 moid = Inr (moid, ?m)" by (simp add: sha_def)
    from createCommit_HEAD[OF c2[unfolded r2]] have hd2: "map_of (refs g2) ''HEAD'' = Some moid" .
    from assms c1 r1 gc anc False mt c2 r2 gm have "h = moid" "g' = g2"
      by (auto simp: commitAndMerge_def Let_def sha_def)
    with False anc gm hd2 c1 r1 oid moid show ?thesis
      by (intro exI[of _ ?fresh] exI[of _ g1]) auto
  qed
qed

lemma commitAndMerge_error:
  assumes "commitAndMerge pf g pc bc t msg = (Inl e, g')"
  shows "e = NotFirstParent \<or> e = NotFound \<or> e = MergeConflict"
proof -
  let ?sig = "createSignature pf"
  obtain r1 g1 where c1: "createCommit pf g ?sig ?sig msg t [pc] = (r1, g1)"
    by (cases "createCommit pf g ?sig ?sig msg t [pc]")
  show ?thesis
  proof (cases r1)
    case (Inl e1)
    with createCommit_cases[OF c1] assms c1 show ?thesis
      by (auto simp: commitAndMerge_def Let_def)
  next
    case (Inr oid)
    let ?fresh = "\<lparr>c_author = ?sig, c_committer = ?sig, c_message = msg, c_tree = t,
                  c_parents = [sha pc]\<rparr>"
    from getCommit_after_createCommit[OF c1[unfolded Inr]]
    have gc: "getCommit g1 oid = Inr (oid, ?fresh)" by simp
    show ?thesis
    proof (cases "isAncestor g1 bc (oid, ?fresh)")
      case (Inl e1)
      then have "e1 = NotFound" by (rule isAncestor_error)
      with Inl assms c1 Inr gc show ?thesis by (auto simp: commitAndMerge_def Let_def)
    next
      case anc: (Inr b)
      show ?thesis
      proof (cases b)
        case True
        with anc assms c1 Inr gc show ?thesis by (auto simp: commitAndMerge_def Let_def)
      next
        case False
        show ?thesis
        proof (cases "Merge_commits pf g1 bc (oid, ?fresh)")
          case None
          with False anc assms c1 Inr gc show ?thesis by (auto simp: commitAndMerge_def Let_def)
        next
          case (Some mt)
          obtain r2 g2 where c2: "createCommit pf g1 ?sig ?sig ''Merge'' mt [(oid, ?fresh), bc] = (r2, g2)"
            by (cases "createCommit pf g1 ?sig ?sig ''Merge'' mt [(oid, ?fresh), bc]")
          show ?thesis
          proof (cases r2)
            case (Inl e2)
            with createCommit_cases[OF c2] Some False anc assms c1 Inr gc c2 show ?thesis
              by (auto simp: commitAndMerge_def Let_def)
          next
            case r2: (Inr moid)
            from getCommit_after_createCommit[OF c2[unfolded r2]]
            have "\<exists>m. getCommit g2 moid = Inr (moid, m)" by blast
            with r2 Some False anc assms c1 Inr gc c2 show ?thesis
              by (auto simp: commitAndMerge_def Let_def)
          qed
        qed
      qed
    qed
  qed
qed

lemma getCommitByVersion_error: "getCommitByVersion g v = Inl e \<Longrightarrow> e = VersionNotFound v"
  by (auto simp: getCommitByVersion_def catch_def split: sum.splits)

lemma getCommitForUpdateBranch_error:
  "getCommitForUpdateBranch g b = Inl e \<Longrightarrow> e = UpdateBranchNotFound"
  by (auto simp: getCommitForUpdateBranch_def catch_def split: sum.splits)

lemma not_push_error:
  "VersionNotFound v \<noteq> PushVerificationFailed"
  "UpdateBranchNotFound \<noteq> PushVerificationFailed"
  "MergeConflict \<noteq> PushVerificationFailed"
  "NotFound \<noteq> PushVerificationFailed"
  "NotFirstParent \<noteq> PushVerificationFailed"
  by (simp_all add: VersionNotFound_def UpdateBranchNotFound_def MergeConflict_def
        PushVerificationFailed_def)

lemma push_cache: "cache (push s b) = cache s"
  by (auto simp: push_def split: option.splits)

lemma push_objects: "objects (repo (push s b)) = objects (repo s)"
  by (auto simp: push_def split: option.splits)

lemma push_HEAD: "map_of (refs (repo (push s b))) ''HEAD'' = map_of (refs (repo s)) ''HEAD''"
  by (auto simp: push_def tracking_def update_conv' split: option.splits)

lemma pushHeadToOrigin_state: "snd (pushHeadToOrigin s b) = push s b"
  by (auto simp: pushHeadToOrigin_def Let_def split: sum.splits)

lemma pushHeadToOrigin_result:
  "fst (pushHeadToOrigin s b) =
     (case getReferenceCommit (repo (push s b)) ''HEAD'' of
        Inl e \<Rightarrow> Inl e
      | Inr h \<Rightarrow>
          (case getReferenceCommit (repo (push s b)) (''refs/remotes/origin/'' @ b) of
             Inl e \<Rightarrow> Inl e
           | Inr r \<Rightarrow> if sha h \<noteq> sha r then Inl PushVerificationFailed else Inr ()))"
  by (auto simp: pushHeadToOrigin_def Let_def split: sum.splits)

lemma getReferenceCommit_error: "getReferenceCommit g n = Inl e \<Longrightarrow> e = NotFound"
  by (auto simp: getReferenceCommit_def getCommit_def split: option.splits)

text \<open>A write stops before the push with an error, or it reaches the push.\<close>

lemma replacePath_cases:
  assumes "replacePath pf pv ub pth fs s = (res, s')"
  shows "(\<exists>e. res = Inl e \<and> e \<noteq> PushVerificationFailed \<and> cache s' = cache s)
       \<or> (\<exists>pc bc h g2.
             getCommitByVersion (repo s) pv = Inr pc
           \<and> getCommitForUpdateBranch (repo s) (orElse ub pv) = Inr bc
           \<and> commitAndMerge pf (snd (writeFiles pf (repo s) pc pth fs)) pc bc
                (fst (writeFiles pf (repo s) pc pth fs))
                (''Update '' @ CHR 0x27 # CHR ''/'' # pth @ [CHR 0x27]) = (Inr h, g2)
           \<and> s' = push (s\<lparr>repo := g2\<rparr>) (template ub)
           \<and> res = (case fst (pushHeadToOrigin (s\<lparr>repo := g2\<rparr>) (template ub)) of
                      Inl e \<Rightarrow> Inl e | Inr u \<Rightarrow> Inr h))"
proof (cases "getCommitByVersion (repo s) pv")
  case (Inl e)
  then have "replacePath pf pv ub pth fs s = (Inl e, s)" by (simp add: replacePath_def)
  with assms have "res = Inl e" "s' = s" by simp_all
  moreover from getCommitByVersion_error[OF Inl] have "e \<noteq> PushVerificationFailed"
    by (simp add: not_push_error)
  ultimately show ?thesis by simp
next
  case pc: (Inr pc)
  show ?thesis
  proof (cases "getCommitForUpdateBranch (repo s) (orElse ub pv)")
    case (Inl e)
    with pc have "replacePath pf pv ub pth fs s = (Inl e, s)" by (simp add: replacePath_def)
    with assms have "res = Inl e" "s' = s" by simp_all
    moreover from getCommitForUpdateBranch_error[OF Inl] have "e \<noteq> PushVerificationFailed"
      by (simp add: not_push_error)
    ultimately show ?thesis by simp
  next
    case bc: (Inr bc)
    obtain t g1 where w: "writeFiles pf (repo s) pc pth fs = (t, g1)"
      by (cases "writeFiles pf (repo s) pc pth fs")
    obtain r g2 where cm: "commitAndMerge pf g1 pc bc t
        (''Update '' @ CHR 0x27 # CHR ''/'' # pth @ [CHR 0x27]) = (r, g2)"
      by (cases "commitAndMerge pf g1 pc bc t (''Update '' @ CHR 0x27 # CHR ''/'' # pth @ [CHR 0x27])")
    show ?thesis
    proof (cases r)
      case (Inl e)
      with pc bc w cm have "replacePath pf pv ub pth fs s = (Inl e, s\<lparr>repo := g2\<rparr>)"
        by (simp add: replacePath_def)
      with assms have "res = Inl e" "s' = s\<lparr>repo := g2\<rparr>" by simp_all
      moreover from commitAndMerge_error[OF cm[unfolded Inl]] have "e \<noteq> PushVerificationFailed"
        using not_push_error by auto
      ultimately show ?thesis by simp
    next
      case (Inr h)
      obtain r3 s3 where p: "pushHeadToOrigin (s\<lparr>repo := g2\<rparr>) (template ub) = (r3, s3)"
        by (cases "pushHeadToOrigin (s\<lparr>repo := g2\<rparr>) (template ub)")
      with pushHeadToOrigin_state[of "s\<lparr>repo := g2\<rparr>" "template ub"]
      have s3: "s3 = push (s\<lparr>repo := g2\<rparr>) (template ub)" by simp
      from pc bc w cm Inr p
      have "replacePath pf pv ub pth fs s = ((case r3 of Inl e \<Rightarrow> Inl e | Inr u \<Rightarrow> Inr h), s3)"
        by (cases r3) (simp_all add: replacePath_def)
      with assms have "s' = s3" "res = (case r3 of Inl e \<Rightarrow> Inl e | Inr u \<Rightarrow> Inr h)"
        by simp_all
      with pc bc w cm Inr p s3 show ?thesis by simp
    qed
  qed
qed

subsection \<open>Reading\<close>

lemma update_commitHash: "update parse c this = Inr this' \<Longrightarrow> commitHash this' = sha c"
  by (auto simp: update_def split: if_splits sum.splits)



lemma getData_unfold:
  assumes "fetch s = Inr s1" and "getCommitByVersion (repo s1) v = Inr c"
    and "update (JSON5_parse pf) c (cache s1) = Inr cache1"
    and "(if l then Inr (Some (Node PlainObject (getFiles pth cache1)))
          else getObject pth cache1) = Inr d"
  shows "getData pf v pth l s = (Inr (commitHash cache1, d), s1\<lparr>cache := cache1\<rparr>)"
  using assms by (simp add: getData_def getCommitHash_def)

lemma getData_success:
  assumes "getData pf v pth l s = (Inr (h, d), s')"
  shows "\<exists>s1 c cache1. fetch s = Inr s1 \<and> getCommitByVersion (repo s1) v = Inr c
           \<and> update (JSON5_parse pf) c (cache s1) = Inr cache1
           \<and> h = sha c \<and> commitHash cache1 = sha c
           \<and> (if l then Inr (Some (Node PlainObject (getFiles pth cache1)))
               else getObject pth cache1) = Inr d
           \<and> s' = s1\<lparr>cache := cache1\<rparr>"
proof -
  from assms obtain s1 where f: "fetch s = Inr s1"
    by (cases "fetch s") (auto simp: getData_def)
  from assms f obtain c where c: "getCommitByVersion (repo s1) v = Inr c"
    by (cases "getCommitByVersion (repo s1) v") (auto simp: getData_def)
  from assms f c obtain cache1 where u: "update (JSON5_parse pf) c (cache s1) = Inr cache1"
    by (cases "update (JSON5_parse pf) c (cache s1)") (auto simp: getData_def)
  from assms f c u obtain d' where g: "(if l then Inr (Some (Node PlainObject (getFiles pth cache1)))
          else getObject pth cache1) = Inr d'"
    by (cases "if l then Inr (Some (Node PlainObject (getFiles pth cache1)))
               else getObject pth cache1") (auto simp: getData_def)
  from getData_unfold[OF f c u g] assms update_commitHash[OF u]
  have "h = sha c" "commitHash cache1 = sha c" "d = d'" "s' = s1\<lparr>cache := cache1\<rparr>"
    by simp_all
  with f c u g show ?thesis by blast
qed

lemma getCommit_push: "getCommit (repo (push s b)) oid = getCommit (repo s) oid"
  by (simp add: getCommit_def push_objects)

section \<open>The claims about the snapshot cache\<close>

text \<open>
  C4, as amended. A snapshot that the build returns for a commit whose documents have no
  path conflict is for that commit and has consistent forms: every entry of the flat map is
  reached in the nested object by the segments of its key, and whatever is reached in the
  nested object along own properties is a directory level above a key of the flat map, the
  document of a key, or a value inside that document. The build returns a snapshot when
  every document parses and the run stays in the model: it assigns no key \<open>__proto__\<close>,
  \<open>constructor\<close> or \<open>prototype\<close> and no \<open>length\<close> of an array, and it makes no directory
  under a name that the parent inherits.
\<close>

theorem snapshot_consistent:
  assumes "update parse c this = Inr this'"
    and "sha c \<noteq> commitHash this"
    and "\<not> pathConflict (getFileEntries (getTree c))"
  shows "commitHash this' = sha c
         \<and> flatInNested (object this') (files this')
         \<and> nestedInFlat (object this') (files this')"
proof -
  from assms(1,2) obtain obj fl
    where b: "buildData parse (getFileEntries (getTree c)) = Inr (obj, fl)"
      and t: "this' = \<lparr>commitHash = sha c, object = obj, files = fl\<rparr>"
    by (auto simp: update_def split: sum.splits)
  from buildData_consistent[OF b assms(3)] t show ?thesis by simp
qed

text \<open>
  Witness for C4: the snapshot of the second commit of the test repository.
\<close>

theorem snapshot_consistent_witness:
  "update exParse (''c2'', exC2) newCache = Inr exSnapshot
   \<and> sha (''c2'', exC2) \<noteq> commitHash (newCache :: int Cache)
   \<and> \<not> pathConflict (getFileEntries (getTree (''c2'', exC2)))
   \<and> flatInNested (object exSnapshot) (files exSnapshot)
   \<and> nestedInFlat (object exSnapshot) (files exSnapshot)"
proof -
  have h: "sha (''c2'', exC2) \<noteq> commitHash (newCache :: int Cache)"
    by (simp add: sha_def newCache_def)
  from snapshot_consistent[OF ex_update_c2 h ex_no_conflict] ex_update_c2 h ex_no_conflict
  show ?thesis by simp
qed

text \<open>
  Counterexample to C4 as stated: in a commit with \<open>a.json\<close> and \<open>a/b.json\<close> the flat
  map holds the document 5 under the key \<open>a\<close>, and the nested object holds the directory
  \<open>{b: 2}\<close> at the path \<open>a\<close>.
\<close>

theorem snapshot_conflict_inconsistent:
  "update exParse (''c9'', exConflict) newCache = Inr exConflictSnapshot
   \<and> map_of (files exConflictSnapshot) ''a'' = Some (Prim 5)
   \<and> get (object exConflictSnapshot) (split CHR ''/'' ''a'')
       = Inr (Some (Node PlainObject [(''b'', Prim 2)]))
   \<and> \<not> flatInNested (object exConflictSnapshot) (files exConflictSnapshot)"
proof -
  have a: "map_of (files exConflictSnapshot) ''a'' = Some (Prim 5)"
    by (simp add: exConflictSnapshot_def)
  have b: "get (object exConflictSnapshot) (split CHR ''/'' ''a'')
           = Inr (Some (Node PlainObject [(''b'', Prim 2)]))"
    by (simp add: exConflictSnapshot_def get_def)
  have "\<not> flatInNested (object exConflictSnapshot) (files exConflictSnapshot)"
  proof
    assume "flatInNested (object exConflictSnapshot) (files exConflictSnapshot)"
    with a have "get (object exConflictSnapshot) (split CHR ''/'' ''a'') = Inr (Some (Prim 5))"
      unfolding flatInNested_def by blast
    with b show False by simp
  qed
  with a b ex_update_conflict show ?thesis by simp
qed

text \<open>
  C6, as amended. A path conflict does not make the build fail with an error of the
  repository's own: no build ends with a thrown \<open>Error\<close>, whatever its message. The
  collision is resolved silently: when every document parses, the names are ordinary and no
  document that is an object or array lies above a later entry, the build returns a snapshot.
\<close>

theorem build_without_PathConflict:
  assumes "pathConflict es"
  shows "(\<forall>m. buildData parse es \<noteq> Inl (Error m))
         \<and> ((\<forall>e \<in> set es. parse (getBlob e) \<noteq> None) \<and> ordinaryNames es
              \<and> \<not> sharedAbove parse es \<longrightarrow>
              (\<exists>obj fl. buildData parse es = Inr (obj, fl)))"
proof (intro conjI allI impI)
  fix m
  show "buildData parse es \<noteq> Inl (Error m)" by (rule buildData_no_Error)
next
  assume "(\<forall>e \<in> set es. parse (getBlob e) \<noteq> None) \<and> ordinaryNames es
          \<and> \<not> sharedAbove parse es"
  then show "\<exists>obj fl. buildData parse es = Inr (obj, fl)"
    using buildData_total by blast
qed

text \<open>
  Witness for C6: the commit with \<open>a.json\<close> and \<open>a/b.json\<close>.
\<close>

theorem build_without_PathConflict_witness:
  "pathConflict (getFileEntries (c_tree exConflict))
   \<and> list_all (\<lambda>e. exParse (getBlob e) \<noteq> None) (getFileEntries (c_tree exConflict))
   \<and> ordinaryNames (getFileEntries (c_tree exConflict))
   \<and> \<not> sharedAbove exParse (getFileEntries (c_tree exConflict))
   \<and> (\<exists>obj fl. buildData exParse (getFileEntries (c_tree exConflict)) = Inr (obj, fl))"
proof -
  have c: "pathConflict (getFileEntries (c_tree exConflict))"
    using ex_conflict by (simp add: getTree_def)
  have p: "(\<forall>e \<in> set (getFileEntries (c_tree exConflict)). exParse (getBlob e) \<noteq> None)
           \<and> ordinaryNames (getFileEntries (c_tree exConflict))
           \<and> \<not> sharedAbove exParse (getFileEntries (c_tree exConflict))"
    by (simp add: ordinaryNames_def reserved_def segments_def cache_defs ex_defs)
  from build_without_PathConflict[OF c, of exParse, THEN conjunct2, THEN mp, OF p] p c
  show ?thesis by (simp add: list_all_iff)
qed

text \<open>
  Counterexample to C6 as stated: the build of the commit with the conflict returns a
  snapshot, no error.
\<close>

theorem conflict_builds_snapshot:
  "pathConflict (getFileEntries (getTree (''c9'', exConflict)))
   \<and> buildData exParse (getFileEntries (getTree (''c9'', exConflict)))
       = Inr (object exConflictSnapshot, files exConflictSnapshot)"
  using ex_conflict by (simp add: cache_defs ex_defs)

text \<open>
  C5, the code at the failing input. The prefix \<open>rootFile\<close> is a key of the flat map of
  the second commit, and \<open>getFiles\<close> returns that entry, not the empty map: a key starts
  with itself. The read \<open>getData("master", "rootFile", true)\<close> of the test returns it.
\<close>

theorem getFiles_file_query_not_empty:
  "update exParse (''c2'', exC2) newCache = Inr exSnapshot
   \<and> map_of (files exSnapshot) ''rootFile'' = Some (Prim 5)
   \<and> getFiles ''rootFile'' exSnapshot = [(''rootFile'', Prim 5)]
   \<and> getFiles ''rootFile'' exSnapshot \<noteq> []
   \<and> fst (getData exPlatform ''master'' ''rootFile'' True exRepo)
       = Inr (''c2'', Some (Node PlainObject [(''rootFile'', Prim 5)]))"
proof -
  have "fst (getData exPlatform ''master'' ''rootFile'' True exRepo)
       = Inr (''c2'', Some (Node PlainObject [(''rootFile'', Prim 5)]))"
    by (simp add: eval_defs)
  with ex_update_c2 show ?thesis
    by (simp add: exSnapshot_def getFiles_def startsWith_def)
qed

section \<open>The claims about the repository\<close>

text \<open>
  C7. A version token is resolved as a remote branch first; when that fails, as a commit
  identifier; when both fail, the error is \<open>VersionNotFound\<close> of the token, whose message
  determines the token.
\<close>

theorem resolve_version_token:
  "getCommitByVersion g token =
     (case getReferenceCommit g (''refs/remotes/origin/'' @ token) of
        Inr c \<Rightarrow> Inr c
      | Inl e \<Rightarrow> (case getCommit g token of
                    Inr c \<Rightarrow> Inr c
                  | Inl e' \<Rightarrow> Inl (VersionNotFound token)))
   \<and> ((VersionNotFound token = VersionNotFound token') = (token = token'))"
  by (auto simp: getCommitByVersion_def catch_def VersionNotFound_def split: sum.splits)

text \<open>
  Witness for C7: a branch, a commit identifier and a token that is neither, in the test
  repository.
\<close>

theorem resolve_version_token_witness:
  "getCommitByVersion (repo exRepo) ''master'' = Inr (''c2'', exC2)
   \<and> getCommitByVersion (repo exRepo) ''c1'' = Inr (''c1'', exC1)
   \<and> getCommitByVersion (repo exRepo) ''nothing'' = Inl (VersionNotFound ''nothing'')"
  using resolve_version_token[of "repo exRepo" "''master''"]
    resolve_version_token[of "repo exRepo" "''c1''"]
    resolve_version_token[of "repo exRepo" "''nothing''"]
  by (simp add: getReferenceCommit_def getCommit_def exRepo_def)

text \<open>
  C3. After the push, \<open>HEAD\<close> and the remote-tracking reference of the pushed branch are
  resolved again in the state the push has left. The push step fails with
  \<open>PushVerificationFailed\<close> exactly when both resolve and their identifiers differ, and it
  succeeds exactly when both resolve and their identifiers are equal. So a write that ends
  with \<open>PushVerificationFailed\<close> or with success has both references resolved in its final
  state, different in the first case and equal in the second.
\<close>

theorem push_is_verified:
  "snd (pushHeadToOrigin sp b) = push sp b
   \<and> (fst (pushHeadToOrigin sp b) = Inl PushVerificationFailed)
       = (\<exists>hc rc. getReferenceCommit (repo (push sp b)) ''HEAD'' = Inr hc
               \<and> getReferenceCommit (repo (push sp b)) (''refs/remotes/origin/'' @ b) = Inr rc
               \<and> sha hc \<noteq> sha rc)
   \<and> (fst (pushHeadToOrigin sp b) = Inr ())
       = (\<exists>hc rc. getReferenceCommit (repo (push sp b)) ''HEAD'' = Inr hc
               \<and> getReferenceCommit (repo (push sp b)) (''refs/remotes/origin/'' @ b) = Inr rc
               \<and> sha hc = sha rc)
   \<and> (replacePath pf pv ub pth fs s = (res, s')
        \<and> (res = Inl PushVerificationFailed \<or> (\<exists>h. res = Inr h)) \<longrightarrow>
        (\<exists>hc rc. getReferenceCommit (repo s') ''HEAD'' = Inr hc
               \<and> getReferenceCommit (repo s') (''refs/remotes/origin/'' @ template ub) = Inr rc
               \<and> ((res = Inl PushVerificationFailed) = (sha hc \<noteq> sha rc))
               \<and> ((\<exists>h. res = Inr h) = (sha hc = sha rc))))"
proof (intro conjI impI)
  show "snd (pushHeadToOrigin sp b) = push sp b" by (rule pushHeadToOrigin_state)
next
  show "(fst (pushHeadToOrigin sp b) = Inl PushVerificationFailed)
       = (\<exists>hc rc. getReferenceCommit (repo (push sp b)) ''HEAD'' = Inr hc
               \<and> getReferenceCommit (repo (push sp b)) (''refs/remotes/origin/'' @ b) = Inr rc
               \<and> sha hc \<noteq> sha rc)"
    unfolding pushHeadToOrigin_result
    by (auto split: sum.splits dest!: getReferenceCommit_error simp: not_push_error)
next
  show "(fst (pushHeadToOrigin sp b) = Inr ())
       = (\<exists>hc rc. getReferenceCommit (repo (push sp b)) ''HEAD'' = Inr hc
               \<and> getReferenceCommit (repo (push sp b)) (''refs/remotes/origin/'' @ b) = Inr rc
               \<and> sha hc = sha rc)"
    unfolding pushHeadToOrigin_result by (auto split: sum.splits)
next
  assume a: "replacePath pf pv ub pth fs s = (res, s')
             \<and> (res = Inl PushVerificationFailed \<or> (\<exists>h. res = Inr h))"
  with replacePath_cases[of pf pv ub pth fs s res s'] obtain h g2
    where s': "s' = push (s\<lparr>repo := g2\<rparr>) (template ub)"
      and res: "res = (case fst (pushHeadToOrigin (s\<lparr>repo := g2\<rparr>) (template ub)) of
                         Inl e \<Rightarrow> Inl e | Inr u \<Rightarrow> Inr h)"
    by auto
  from a res show "\<exists>hc rc. getReferenceCommit (repo s') ''HEAD'' = Inr hc
               \<and> getReferenceCommit (repo s') (''refs/remotes/origin/'' @ template ub) = Inr rc
               \<and> ((res = Inl PushVerificationFailed) = (sha hc \<noteq> sha rc))
               \<and> ((\<exists>h. res = Inr h) = (sha hc = sha rc))"
    unfolding pushHeadToOrigin_result s'
    by (auto split: sum.splits if_splits dest!: getReferenceCommit_error
          simp: not_push_error not_push_error[symmetric])
qed

text \<open>
  Witness for C3: a write with origin out of reach fails the verification, the same write
  with origin in reach passes it.
\<close>

theorem push_is_verified_witness:
  "fst (replacePath exPlatform ''master'' (Some ''master'') ''dir'' [] exOffline)
     = Inl PushVerificationFailed
   \<and> (\<exists>hc rc.
         getReferenceCommit
           (repo (snd (replacePath exPlatform ''master'' (Some ''master'') ''dir'' [] exOffline)))
           ''HEAD'' = Inr hc
       \<and> getReferenceCommit
           (repo (snd (replacePath exPlatform ''master'' (Some ''master'') ''dir'' [] exOffline)))
           ''refs/remotes/origin/master'' = Inr rc
       \<and> sha hc \<noteq> sha rc)
   \<and> fst (replacePath exPlatform ''master'' (Some ''master'') ''dir'' [] exRepo) = Inr ''n-c2''
   \<and> (\<exists>hc rc.
         getReferenceCommit
           (repo (snd (replacePath exPlatform ''master'' (Some ''master'') ''dir'' [] exRepo)))
           ''HEAD'' = Inr hc
       \<and> getReferenceCommit
           (repo (snd (replacePath exPlatform ''master'' (Some ''master'') ''dir'' [] exRepo)))
           ''refs/remotes/origin/master'' = Inr rc
       \<and> sha hc = sha rc)"
proof -
  let ?off = "replacePath exPlatform ''master'' (Some ''master'') ''dir'' [] exOffline"
  let ?on = "replacePath exPlatform ''master'' (Some ''master'') ''dir'' [] exRepo"
  have off: "?off = (Inl PushVerificationFailed, snd ?off)"
    by (simp add: eval_defs exOffline_def)
  have on: "?on = (Inr ''n-c2'', snd ?on)"
    by (simp add: eval_defs exRepoRead_def)
  have offc: "?off = (Inl PushVerificationFailed, snd ?off)
              \<and> (Inl PushVerificationFailed = (Inl PushVerificationFailed :: error + string)
                 \<or> (\<exists>h. Inl PushVerificationFailed = (Inr h :: error + string)))"
    using off by blast
  have onc: "?on = (Inr ''n-c2'', snd ?on)
             \<and> (Inr ''n-c2'' = (Inl PushVerificationFailed :: error + string)
                \<or> (\<exists>h. Inr ''n-c2'' = (Inr h :: error + string)))"
    using on by blast
  note v = push_is_verified[THEN conjunct2, THEN conjunct2, THEN conjunct2, THEN mp]
  from v[OF offc]
  have 1: "\<exists>hc rc. getReferenceCommit (repo (snd ?off)) ''HEAD'' = Inr hc
       \<and> getReferenceCommit (repo (snd ?off)) ''refs/remotes/origin/master'' = Inr rc
       \<and> sha hc \<noteq> sha rc"
    by (simp add: template_def)
  from v[OF onc]
  have 2: "\<exists>hc rc. getReferenceCommit (repo (snd ?on)) ''HEAD'' = Inr hc
       \<and> getReferenceCommit (repo (snd ?on)) ''refs/remotes/origin/master'' = Inr rc
       \<and> sha hc = sha rc"
    by (simp add: template_def)
  from off on have "fst ?off = Inl PushVerificationFailed" "fst ?on = Inr ''n-c2''"
    by (metis fst_conv)+
  with 1 2 show ?thesis by blast
qed

text \<open>
  C10. Whatever a write returns, the cache after it is the cache before it; a later read
  that succeeds leaves the cache at the commit it resolved.
\<close>

theorem write_keeps_cache:
  "cache (snd (replacePath pf pv ub pth fs s)) = cache s
   \<and> (getData pf v p l (snd (replacePath pf pv ub pth fs s)) = (Inr (h, d), s'') \<longrightarrow>
        commitHash (cache s'') = h
      \<and> (\<exists>c. getCommitByVersion (repo s'') v = Inr c \<and> sha c = h))"
proof -
  obtain res s' where r: "replacePath pf pv ub pth fs s = (res, s')"
    by (cases "replacePath pf pv ub pth fs s")
  from replacePath_cases[OF r] have "cache s' = cache s"
    by (auto simp: push_cache)
  with r have 1: "cache (snd (replacePath pf pv ub pth fs s)) = cache s" by simp
  have 2: "commitHash (cache s'') = h \<and> (\<exists>c. getCommitByVersion (repo s'') v = Inr c \<and> sha c = h)"
    if "getData pf v p l (snd (replacePath pf pv ub pth fs s)) = (Inr (h, d), s'')"
    using getData_success[OF that] by auto
  from 1 2 show ?thesis by blast
qed

text \<open>
  Witness for C10: a write on the test repository after a read, and the read after it.
\<close>

theorem write_keeps_cache_witness:
  "cache (snd (replacePath exPlatform ''master'' (Some ''master'') ''dir''
                 [(''nestedFile2'', Prim 2)] exRepoRead)) = exSnapshot
   \<and> fst (getData exPlatform ''master'' ''dir'' True
            (snd (replacePath exPlatform ''master'' (Some ''master'') ''dir''
                    [(''nestedFile2'', Prim 2)] exRepoRead)))
     = Inr (''n-c2'', Some (Node PlainObject [(''dir/nestedFile2'', Prim 2)]))
   \<and> commitHash (cache (snd (getData exPlatform ''master'' ''dir'' True
            (snd (replacePath exPlatform ''master'' (Some ''master'') ''dir''
                    [(''nestedFile2'', Prim 2)] exRepoRead))))) = ''n-c2''"
proof -
  let ?w = "replacePath exPlatform ''master'' (Some ''master'') ''dir''
              [(''nestedFile2'', Prim 2)] exRepoRead"
  let ?r = "getData exPlatform ''master'' ''dir'' True (snd ?w)"
  have r: "?r = (Inr (''n-c2'', Some (Node PlainObject [(''dir/nestedFile2'', Prim 2)])), snd ?r)"
    by (simp add: eval_defs exRepoRead_def)
  note w = write_keeps_cache[of exPlatform "''master''" "Some ''master''" "''dir''"
        "[(''nestedFile2'', Prim 2)]" "exRepoRead" "''master''" "''dir''" True
        "''n-c2''" "Some (Node PlainObject [(''dir/nestedFile2'', Prim 2)])" "snd ?r"]
  from w[THEN conjunct1] have "cache (snd ?w) = exSnapshot"
    by (simp add: exRepoRead_def)
  moreover from w[THEN conjunct2, THEN mp, OF r, THEN conjunct1]
  have "commitHash (cache (snd ?r)) = ''n-c2''" .
  moreover from r have "fst ?r = Inr (''n-c2'', Some (Node PlainObject [(''dir/nestedFile2'', Prim 2)]))"
    by (metis fst_conv)
  ultimately show ?thesis by blast
qed



text \<open>
  C8, the code at the failing input. Origin has the branch \<open>branch1\<close> and the clone has
  not fetched it. A read of it fetches first and resolves it. A write with it as the parent
  version resolves the token in the clone as it is, without a fetch, and fails with
  \<open>VersionNotFound\<close>.
\<close>

theorem write_resolves_without_fetch:
  "reachable (origin exStale)
   \<and> map_of (branches (origin exStale)) ''branch1'' = Some ''c3''
   \<and> map_sum id fst (fst (getData exPlatform ''branch1'' [] False exStale)) = Inr ''c3''
   \<and> fst (replacePath exPlatform ''branch1'' None ''dir'' [] exStale)
       = Inl (VersionNotFound ''branch1'')"
  by (simp add: eval_defs)

text \<open>
  C1, as amended. A successful write has created a new commit whose only parent is the
  resolved parent commit. When the update-branch commit is an ancestor of the new commit, the
  result is the new commit. Otherwise the result is a merge commit whose first parent is the
  new commit and whose second parent is the update-branch commit.
\<close>

theorem write_result_parents:
  assumes "replacePath pf pv ub pth fs s = (Inr h, s')"
  shows "\<exists>pc bc fresh g1.
           getCommitByVersion (repo s) pv = Inr pc
         \<and> getCommitForUpdateBranch (repo s) (orElse ub pv) = Inr bc
         \<and> c_parents fresh = [sha pc]
         \<and> createCommit pf (snd (writeFiles pf (repo s) pc pth fs))
              (createSignature pf) (createSignature pf)
              (''Update '' @ CHR 0x27 # CHR ''/'' # pth @ [CHR 0x27])
              (fst (writeFiles pf (repo s) pc pth fs)) [pc] = (Inr (oidOf pf fresh), g1)
         \<and> (isAncestor g1 bc (oidOf pf fresh, fresh) = Inr True
               \<and> h = oidOf pf fresh \<and> getCommit (repo s') h = Inr (h, fresh)
            \<or> isAncestor g1 bc (oidOf pf fresh, fresh) = Inr False
               \<and> (\<exists>m. getCommit (repo s') h = Inr (h, m)
                      \<and> c_parents m = [oidOf pf fresh, sha bc]))"
proof -
  from replacePath_cases[OF assms] obtain pc bc h' g2
    where pc: "getCommitByVersion (repo s) pv = Inr pc"
      and bc: "getCommitForUpdateBranch (repo s) (orElse ub pv) = Inr bc"
      and cm: "commitAndMerge pf (snd (writeFiles pf (repo s) pc pth fs)) pc bc
                (fst (writeFiles pf (repo s) pc pth fs))
                (''Update '' @ CHR 0x27 # CHR ''/'' # pth @ [CHR 0x27]) = (Inr h', g2)"
      and s': "s' = push (s\<lparr>repo := g2\<rparr>) (template ub)"
      and res: "Inr h = (case fst (pushHeadToOrigin (s\<lparr>repo := g2\<rparr>) (template ub)) of
                           Inl e \<Rightarrow> Inl e | Inr u \<Rightarrow> (Inr h' :: error + string))"
    by auto
  from res have h: "h' = h" by (auto split: sum.splits)
  have gc: "getCommit (repo s') x = getCommit g2 x" for x
    by (simp add: s' getCommit_push)
  from commitAndMerge_success[OF cm[unfolded h]] obtain fresh g1
    where fp: "c_parents fresh = [sha pc]"
      and cc: "createCommit pf (snd (writeFiles pf (repo s) pc pth fs))
              (createSignature pf) (createSignature pf)
              (''Update '' @ CHR 0x27 # CHR ''/'' # pth @ [CHR 0x27])
              (fst (writeFiles pf (repo s) pc pth fs)) [pc] = (Inr (oidOf pf fresh), g1)"
      and alt: "isAncestor g1 bc (oidOf pf fresh, fresh) = Inr True
               \<and> h = oidOf pf fresh \<and> getCommit g2 h = Inr (h, fresh)
            \<or> isAncestor g1 bc (oidOf pf fresh, fresh) = Inr False
               \<and> (\<exists>m. getCommit g2 h = Inr (h, m)
                      \<and> c_parents m = [oidOf pf fresh, sha bc])"
    by blast
  from alt have "isAncestor g1 bc (oidOf pf fresh, fresh) = Inr True
               \<and> h = oidOf pf fresh \<and> getCommit (repo s') h = Inr (h, fresh)
            \<or> isAncestor g1 bc (oidOf pf fresh, fresh) = Inr False
               \<and> (\<exists>m. getCommit (repo s') h = Inr (h, m)
                      \<and> c_parents m = [oidOf pf fresh, sha bc])"
    by (simp only: gc)
  with pc bc fp cc show ?thesis by blast
qed

text \<open>
  Witness for C1: a write on the first commit of the test repository while \<open>master\<close> is at
  the second.
\<close>

theorem write_result_parents_witness:
  "fst (replacePath exPlatform ''c1'' (Some ''master'') ''dir'' [(''nestedFile2'', Prim 2)] exRepo)
     = Inr ''n-n-c1-c2''
   \<and> (\<exists>pc bc fresh g1.
           getCommitByVersion (repo exRepo) ''c1'' = Inr pc
         \<and> getCommitForUpdateBranch (repo exRepo) (orElse (Some ''master'') ''c1'') = Inr bc
         \<and> c_parents fresh = [sha pc]
         \<and> createCommit exPlatform
              (snd (writeFiles exPlatform (repo exRepo) pc ''dir'' [(''nestedFile2'', Prim 2)]))
              (createSignature exPlatform) (createSignature exPlatform)
              (''Update '' @ CHR 0x27 # CHR ''/'' # ''dir'' @ [CHR 0x27])
              (fst (writeFiles exPlatform (repo exRepo) pc ''dir'' [(''nestedFile2'', Prim 2)])) [pc]
             = (Inr (oidOf exPlatform fresh), g1)
         \<and> (isAncestor g1 bc (oidOf exPlatform fresh, fresh) = Inr True
               \<and> ''n-n-c1-c2'' = oidOf exPlatform fresh
               \<and> getCommit (repo (snd (replacePath exPlatform ''c1'' (Some ''master'') ''dir''
                                          [(''nestedFile2'', Prim 2)] exRepo))) ''n-n-c1-c2''
                   = Inr (''n-n-c1-c2'', fresh)
            \<or> isAncestor g1 bc (oidOf exPlatform fresh, fresh) = Inr False
               \<and> (\<exists>m. getCommit (repo (snd (replacePath exPlatform ''c1'' (Some ''master'') ''dir''
                                          [(''nestedFile2'', Prim 2)] exRepo))) ''n-n-c1-c2''
                        = Inr (''n-n-c1-c2'', m)
                      \<and> c_parents m = [oidOf exPlatform fresh, sha bc])))"
proof -
  from ex_merge_write
  have "fst (replacePath exPlatform ''c1'' (Some ''master'') ''dir'' [(''nestedFile2'', Prim 2)] exRepo)
        = Inr ''n-n-c1-c2''"
    by (metis fst_conv)
  with write_result_parents[OF ex_merge_write] show ?thesis by blast
qed

text \<open>
  Counterexample to C1 as stated: in that write the first parent of the resulting commit is
  the new commit \<open>n-c1\<close>, not the resolved parent commit \<open>c1\<close>.
\<close>

theorem merge_first_parent_is_new_commit:
  "getCommitByVersion (repo exRepo) ''c1'' = Inr (''c1'', exC1)
   \<and> fst (replacePath exPlatform ''c1'' (Some ''master'') ''dir'' [(''nestedFile2'', Prim 2)] exRepo)
       = Inr ''n-n-c1-c2''
   \<and> map_option c_parents (map_of (objects (repo (snd
        (replacePath exPlatform ''c1'' (Some ''master'') ''dir'' [(''nestedFile2'', Prim 2)] exRepo))))
        ''n-n-c1-c2'') = Some [''n-c1'', ''c2'']
   \<and> hd [''n-c1'', ''c2''] \<noteq> sha (''c1'', exC1)"
proof -
  have "getCommitByVersion (repo exRepo) ''c1'' = Inr (''c1'', exC1)"
    by (simp add: eval_defs)
  moreover from ex_merge_write
  have "fst (replacePath exPlatform ''c1'' (Some ''master'') ''dir'' [(''nestedFile2'', Prim 2)] exRepo)
        = Inr ''n-n-c1-c2''"
    by (metis fst_conv)
  moreover have "hd [''n-c1'', ''c2''] \<noteq> sha (''c1'', exC1)" by (simp add: sha_def)
  ultimately show ?thesis using ex_merge_parents by blast
qed

text \<open>
  C2, the code at the failing input. Without an update branch the update-branch commit is
  resolved from the parent version \<open>master\<close>, but the push goes to the branch
  \<open>undefined\<close>: origin gets a branch of that name and \<open>master\<close> stays where it was.
\<close>

theorem undefined_update_branch:
  "getCommitForUpdateBranch (repo exRepo) (orElse None ''master'') = Inr (''c2'', exC2)
   \<and> fst (replacePath exPlatform ''master'' None ''dir'' [(''nestedFile2'', Prim 2)] exRepo)
       = Inr ''n-c2''
   \<and> branches (origin (snd
        (replacePath exPlatform ''master'' None ''dir'' [(''nestedFile2'', Prim 2)] exRepo)))
       = [(''master'', ''c2''), (''branch1'', ''c3''), (''undefined'', ''n-c2'')]"
proof -
  have "getCommitForUpdateBranch (repo exRepo) (orElse None ''master'') = Inr (''c2'', exC2)"
    by (simp add: eval_defs)
  with ex_undefined_write show ?thesis by blast
qed

end
